theory Spec2Isabelle
  imports Main "HOL-Library.AList" "HOL-Library.Monad_Syntax"
begin

section \<open>Data model\<close>

text \<open>
  The program is JavaScript. A JavaScript object used as a dictionary is modelled as an
  association list in the order in which its keys were first assigned: assignment
  \<open>o[k] = v\<close> is \<^const>\<open>AList.update\<close> (replace in place, or append a new key at the
  end), a read \<open>o[k]\<close> is \<^const>\<open>map_of\<close>, and enumeration (\<open>_.keys\<close>, \<open>_.forOwn\<close>)
  walks the list from left to right. This is what a JavaScript engine does for every key
  that is neither an array index (\<open>"0"\<close>, \<open>"17"\<close>) nor the name of a member of
  \<open>Object.prototype\<close> (\<open>"constructor"\<close>, \<open>"toString"\<close>); equation names are upper-case
  identifiers, and variable tokens are upper-case by construction, so the model covers
  them. Strings are lists of 8-bit characters; every character outside ASCII is a
  non-word character for the regular expression, in JavaScript and here. A function
  that may run for ever returns an \<open>option\<close>, \<open>None\<close> standing for a call that does not
  return; a function that may throw returns a sum, \<open>Inl\<close> carrying the error.
\<close>

type_synonym 'v obj = "(string \<times> 'v) list"

datatype error =
    Error string   \<comment> \<open>\<open>throw new Error( message )\<close>\<close>
  | TypeError      \<comment> \<open>a method call on \<open>undefined\<close>\<close>

subsection \<open>The graph (\<open>src/classes/Graph.js\<close>)\<close>

record Graph =
  vertices :: "bool obj"
  adj :: "string list obj"

definition newGraph :: Graph where
  "newGraph = \<lparr>vertices = [], adj = []\<rparr>"

definition addVertex :: "string \<Rightarrow> Graph \<Rightarrow> Graph" where
  "addVertex v g = g\<lparr>vertices := AList.update v True (vertices g)\<rparr>"

definition getVertices :: "Graph \<Rightarrow> string list" where
  "getVertices g = map fst (vertices g)"

text \<open>
  \<open>addEdge\<close>: an array is truthy even when empty, so \<open>!adj[ v ]\<close> holds exactly when
  \<open>v\<close> has no entry yet.
\<close>

definition addEdge :: "string \<Rightarrow> string \<Rightarrow> Graph \<Rightarrow> Graph" where
  "addEdge v w g =
     (let adj1 = (case map_of (adj g) v of
                    None \<Rightarrow> AList.update v [] (adj g)
                  | Some _ \<Rightarrow> adj g);
          ws = (case map_of adj1 v of None \<Rightarrow> [] | Some l \<Rightarrow> l)
      in if w \<in> set ws then g\<lparr>adj := adj1\<rparr>
         else g\<lparr>adj := AList.update v (ws @ [w]) adj1\<rparr>)"

definition getAdjacencyList :: "Graph \<Rightarrow> string \<Rightarrow> string list" where
  "getAdjacencyList g v = (case map_of (adj g) v of None \<Rightarrow> [] | Some ws \<Rightarrow> ws)"

text \<open>A sequence of calls on a fresh graph.\<close>

datatype graph_op = AddVertex string | AddEdge string string

fun apply_op :: "graph_op \<Rightarrow> Graph \<Rightarrow> Graph" where
  "apply_op (AddVertex v) g = addVertex v g"
| "apply_op (AddEdge v w) g = addEdge v w g"

definition run_ops :: "graph_op list \<Rightarrow> Graph" where
  "run_ops ops = fold apply_op ops newGraph"

text \<open>The edge relation of a graph, and the names the traversal can ever meet.\<close>

definition edges :: "Graph \<Rightarrow> (string \<times> string) set" where
  "edges g = {(v, w). w \<in> set (getAdjacencyList g v)}"

definition nodes :: "Graph \<Rightarrow> string set" where
  "nodes g = set (getVertices g) \<union> set (concat (map snd (adj g)))"

subsection \<open>The regular expression \<open>exprVarTokenRe\<close> (\<open>src/classes/EquationResolver.js\<close>)\<close>

text \<open>
  \<open>/\b[A-Z]+\b(?!\()/g\<close>. \<open>\w\<close> is \<open>[A-Za-z0-9_]\<close>; \<open>\b\<close> holds between two
  positions exactly one of which is a word character, the position before the start and
  the position after the end counting as non-word.
\<close>

definition is_upper :: "char \<Rightarrow> bool" where
  "is_upper c = (c \<in> set ''ABCDEFGHIJKLMNOPQRSTUVWXYZ'')"

definition is_word :: "char \<Rightarrow> bool" where
  "is_word c = (is_upper c \<or> c \<in> set ''abcdefghijklmnopqrstuvwxyz0123456789_'')"

fun word_opt :: "char option \<Rightarrow> bool" where
  "word_opt None = False"
| "word_opt (Some c) = is_word c"

definition boundary :: "char option \<Rightarrow> char option \<Rightarrow> bool" where
  "boundary a b = (word_opt a \<noteq> word_opt b)"

definition nth_opt :: "string \<Rightarrow> nat \<Rightarrow> char option" where
  "nth_opt s k = (if k < length s then Some (s ! k) else None)"

text \<open>
  One attempt of the pattern at a position: \<open>prev\<close> is the character before the position
  (\<open>None\<close> at the start of the string), \<open>s\<close> the rest of the string from the position
  on. The result is the length of the match. \<open>[A-Z]+\<close> is greedy: the engine takes
  every upper-case letter there is and, when the rest of the pattern fails, gives the
  letters back one at a time, down to one letter.
\<close>

definition match_here :: "char option \<Rightarrow> string \<Rightarrow> nat option" where
  "match_here prev s =
     (if boundary prev (nth_opt s 0)
      then List.find
             (\<lambda>k. boundary (nth_opt s (k - 1)) (nth_opt s k) \<and> nth_opt s k \<noteq> Some CHR ''('')
             (rev [1..<Suc (length (takeWhile is_upper s))])
      else None)"

lemma find_Some_mem: "List.find P xs = Some x \<Longrightarrow> x \<in> set xs \<and> P x"
  by (induction xs) (auto split: if_splits)

lemma match_here_pos: "match_here prev s = Some k \<Longrightarrow> 0 < k \<and> k \<le> length s"
proof -
  assume "match_here prev s = Some k"
  then have "k \<in> set (rev [1..<Suc (length (takeWhile is_upper s))])"
    by (auto simp: match_here_def split: if_splits dest: find_Some_mem)
  moreover have "length (takeWhile is_upper s) \<le> length s"
    by (rule length_takeWhile_le)
  ultimately show ?thesis by auto
qed

text \<open>
  The global scan (flag \<open>g\<close>) shared by \<open>String.prototype.match\<close> and
  \<open>String.prototype.replace\<close>: from the left, try the pattern at each position; after a
  match, go on behind it. The string is cut into the matched tokens and the characters
  in between.
\<close>

datatype piece = Lit char | Var string

function regex_scan :: "char option \<Rightarrow> string \<Rightarrow> piece list" where
  "regex_scan prev [] = []"
| "regex_scan prev (c # cs) =
     (case match_here prev (c # cs) of
        None \<Rightarrow> Lit c # regex_scan (Some c) cs
      | Some k \<Rightarrow> Var (take k (c # cs)) # regex_scan (nth_opt (c # cs) (k - 1)) (drop k (c # cs)))"
  by pat_completeness auto

termination
  by (relation "measure (\<lambda>(prev, s). length s)") (auto dest: match_here_pos)

fun vars_of :: "piece list \<Rightarrow> string list" where
  "vars_of [] = []"
| "vars_of (Lit c # ps) = vars_of ps"
| "vars_of (Var t # ps) = t # vars_of ps"

fun subst_pieces :: "(string \<Rightarrow> string) \<Rightarrow> piece list \<Rightarrow> string" where
  "subst_pieces f [] = []"
| "subst_pieces f (Lit c # ps) = c # subst_pieces f ps"
| "subst_pieces f (Var t # ps) = f t @ subst_pieces f ps"

text \<open>\<open>expr.match( exprVarTokenRe ) || []\<close>: \<open>match\<close> gives \<open>null\<close> when nothing matches.\<close>

definition match_tokens :: "string \<Rightarrow> string list" where
  "match_tokens expr = vars_of (regex_scan None expr)"

text \<open>\<open>expr.replace( exprVarTokenRe, f )\<close> with a function \<open>f\<close> of the matched text.\<close>

definition replace_tokens :: "(string \<Rightarrow> string) \<Rightarrow> string \<Rightarrow> string" where
  "replace_tokens f expr = subst_pieces f (regex_scan None expr)"

subsection \<open>The topological sorter (\<open>src/unnamed/part_000\<close>)\<close>

text \<open>
  \<open>marked\<close> and \<open>onStack\<close> are objects used as sets of names (every stored value is
  \<open>true\<close>, and they are only asked for membership), \<open>edgeTo\<close> is a dictionary that is only
  read by key; \<open>cycle\<close> is \<open>null\<close> (\<open>None\<close>) until a cycle is found.
\<close>

record TopologicalSorter =
  marked :: "string set"
  ordering :: "string list"
  onStack :: "string set"
  edgeTo :: "string \<rightharpoonup> string"
  cycle :: "string list option"

text \<open>
  The loop \<open>for( var x = v; x != w; x = this.edgeTo[ x ] ) this.cycle.unshift( x )\<close>.
  It stops only when it reaches \<open>w\<close>; a name without an \<open>edgeTo\<close> entry makes \<open>x\<close>
  \<open>undefined\<close>, which never equals \<open>w\<close>, so the loop goes on for ever: the value \<open>None\<close>.
\<close>

partial_function (option) cycle_walk ::
  "(string \<rightharpoonup> string) \<Rightarrow> string \<Rightarrow> string \<Rightarrow> string list \<Rightarrow> string list option"
where
  "cycle_walk et w x acc =
     (if x \<noteq> w
      then (case et x of None \<Rightarrow> None | Some p \<Rightarrow> cycle_walk et w p (x # acc))
      else Some acc)"

declare cycle_walk.simps [code]

text \<open>The first two and the last two statements of \<open>dfs\<close>.\<close>

definition enter :: "string \<Rightarrow> TopologicalSorter \<Rightarrow> TopologicalSorter" where
  "enter v s = s\<lparr>marked := insert v (marked s), onStack := insert v (onStack s)\<rparr>"

definition leave :: "string \<Rightarrow> TopologicalSorter \<Rightarrow> TopologicalSorter" where
  "leave v s = s\<lparr>onStack := onStack s - {v}, ordering := ordering s @ [v]\<rparr>"

text \<open>
  \<open>dfs_from g v ws s\<close> is the rest of a call \<open>dfs( graph, v )\<close>: the \<open>_.forEach\<close> over the
  neighbours \<open>ws\<close> of \<open>v\<close> that are still to come, then the two closing statements. The
  recursive call \<open>this.dfs( graph, w )\<close> is the inner \<open>dfs_from\<close> on all neighbours of \<open>w\<close>.
  The callback's \<open>return\<close> once a cycle is known ends one iteration only, so every later
  neighbour is looked at and skipped the same way. A traversal that does not return has
  the value \<open>None\<close>.
\<close>

partial_function (option) dfs_from ::
  "Graph \<Rightarrow> string \<Rightarrow> string list \<Rightarrow> TopologicalSorter \<Rightarrow> TopologicalSorter option"
where
  "dfs_from g v ws s =
     (case ws of
        [] \<Rightarrow> Some (leave v s)
      | w # ws' \<Rightarrow>
          (if cycle s \<noteq> None then dfs_from g v ws' s
           else if w \<notin> marked s then
             dfs_from g w (getAdjacencyList g w) (enter w (s\<lparr>edgeTo := (edgeTo s)(w \<mapsto> v)\<rparr>))
               \<bind> dfs_from g v ws'
           else if w \<in> onStack s then
             cycle_walk (edgeTo s) w v [w]
               \<bind> (\<lambda>c. dfs_from g v ws' (s\<lparr>cycle := Some (w # c)\<rparr>))
           else dfs_from g v ws' s))"

declare dfs_from.simps [code]

definition dfs :: "Graph \<Rightarrow> string \<Rightarrow> TopologicalSorter \<Rightarrow> TopologicalSorter option" where
  "dfs g v s = dfs_from g v (getAdjacencyList g v) (enter v s)"

text \<open>The constructor: a search from every vertex that is not yet marked.\<close>

fun dfs_all :: "Graph \<Rightarrow> string list \<Rightarrow> TopologicalSorter \<Rightarrow> TopologicalSorter option" where
  "dfs_all g [] s = Some s"
| "dfs_all g (vertex # vs) s =
     (if vertex \<notin> marked s then dfs g vertex s \<bind> dfs_all g vs else dfs_all g vs s)"

definition new_TopologicalSorter :: "Graph \<Rightarrow> TopologicalSorter option" where
  "new_TopologicalSorter graph =
     dfs_all graph (getVertices graph)
       \<lparr>marked = {}, ordering = [], onStack = {}, edgeTo = Map.empty, cycle = None\<rparr>"

definition hasCycle :: "TopologicalSorter \<Rightarrow> bool" where
  "hasCycle s = (cycle s \<noteq> None)"

definition getCycle :: "TopologicalSorter \<Rightarrow> string list option" where
  "getCycle s = cycle s"

definition getOrdering :: "TopologicalSorter \<Rightarrow> error + string list" where
  "getOrdering s =
     (if hasCycle s then Inl (Error ''Graph has a cycle, no topological ordering exists'')
      else Inr (ordering s))"

subsection \<open>The equation resolver (\<open>src/classes/EquationResolver.js\<close>)\<close>

text \<open>
  A field that the constructor does not assign is \<open>undefined\<close>: \<open>None\<close>. The constructor
  returns \<open>None\<close> when the sorter does not return, and \<open>Some (Inl e)\<close> when a call in it
  throws \<open>e\<close>.
\<close>

record EquationResolver =
  inputEquations :: "string obj"
  graphCycle :: "string list option"
  topologicalOrder :: "string list option"

definition buildGraph :: "string obj \<Rightarrow> Graph" where
  "buildGraph input =
     fold (\<lambda>(exprName, expr) graph.
             fold (\<lambda>exprDependencyName graph.
                     addEdge exprName exprDependencyName (addVertex exprDependencyName graph))
                  (match_tokens expr)
                  (addVertex exprName graph))
          input newGraph"

definition new_EquationResolver :: "string obj \<Rightarrow> (error + EquationResolver) option" where
  "new_EquationResolver input =
     new_TopologicalSorter (buildGraph input) \<bind>
       (\<lambda>topologicalSorter.
          if hasCycle topologicalSorter
          then Some (Inr \<lparr>inputEquations = input,
                          graphCycle = getCycle topologicalSorter,
                          topologicalOrder = None\<rparr>)
          else (case getOrdering topologicalSorter of
                  Inl e \<Rightarrow> Some (Inl e)
                | Inr ord \<Rightarrow> Some (Inr \<lparr>inputEquations = input,
                                         graphCycle = None,
                                         topologicalOrder = Some ord\<rparr>)))"

text \<open>\<open>!!this.graphCycle\<close>: an array is truthy, \<open>undefined\<close> is not.\<close>

definition EquationResolver_hasCycle :: "EquationResolver \<Rightarrow> bool" where
  "EquationResolver_hasCycle r = (graphCycle r \<noteq> None)"

definition EquationResolver_getCycle :: "EquationResolver \<Rightarrow> string list option" where
  "EquationResolver_getCycle r = graphCycle r"

text \<open>
  One round of the \<open>_.forEach\<close> in \<open>getExpandedEquations\<close>; \<open>input\<close> is the object
  \<open>inputEquations\<close>. \<open>inputEquations[ exprName ]\<close>
  is \<open>undefined\<close> for a name without an equation, and the call of \<open>.replace\<close> on it throws
  a TypeError. The replacement function returns \<open>expandedEquations[ exprVar ]\<close>; when that
  is \<open>undefined\<close>, \<open>replace\<close> inserts its string form, the text \<open>undefined\<close>.
\<close>

definition expand_one :: "string obj \<Rightarrow> string \<Rightarrow> string obj \<Rightarrow> error + string obj" where
  "expand_one input exprName expandedEquations =
     (case map_of input exprName of
        None \<Rightarrow> Inl TypeError
      | Some expr \<Rightarrow>
          Inr (AList.update exprName
                 (replace_tokens
                    (\<lambda>exprVar. case map_of expandedEquations exprVar of
                                 None \<Rightarrow> ''undefined'' | Some t \<Rightarrow> t)
                    expr)
                 expandedEquations))"

fun expand_all :: "string obj \<Rightarrow> string list \<Rightarrow> string obj \<Rightarrow> error + string obj" where
  "expand_all input [] expandedEquations = Inr expandedEquations"
| "expand_all input (exprName # rest) expandedEquations =
     (case expand_one input exprName expandedEquations of
        Inl e \<Rightarrow> Inl e
      | Inr expandedEquations' \<Rightarrow> expand_all input rest expandedEquations')"

definition order_list :: "string list option \<Rightarrow> string list" where
  "order_list ord = (case ord of None \<Rightarrow> [] | Some l \<Rightarrow> l)"

definition getExpandedEquations :: "EquationResolver \<Rightarrow> error + string obj" where
  "getExpandedEquations r =
     (if EquationResolver_hasCycle r
      then Inl (Error ''Input equations have a cycle. Cannot resolve dependencies in equations.'')
      else expand_all (inputEquations r) (order_list (topologicalOrder r)) [])"

subsection \<open>The expression resolver (second half of \<open>src/classes/EquationResolver.js\<close>)\<close>

text \<open>
  The same class once more, under the name \<open>ExpressionResolver\<close>: it keeps the answer of
  the sorter's \<open>hasCycle\<close> in a field \<open>graphHasCycle\<close> of its own, and its error message
  speaks of expressions. The fields \<open>graphCycle\<close> and \<open>topologicalOrder\<close> carry a prime
  here, since the names are taken.
\<close>

record ExpressionResolver =
  inputExpressions :: "string obj"
  graphHasCycle :: bool
  graphCycle' :: "string list option"
  topologicalOrder' :: "string list option"

definition ExpressionResolver_buildGraph :: "string obj \<Rightarrow> Graph" where
  "ExpressionResolver_buildGraph input =
     fold (\<lambda>(exprName, expr) graph.
             fold (\<lambda>exprDependencyName graph.
                     addEdge exprName exprDependencyName (addVertex exprDependencyName graph))
                  (match_tokens expr)
                  (addVertex exprName graph))
          input newGraph"

definition new_ExpressionResolver :: "string obj \<Rightarrow> (error + ExpressionResolver) option" where
  "new_ExpressionResolver input =
     new_TopologicalSorter (ExpressionResolver_buildGraph input) \<bind>
       (\<lambda>topologicalSorter.
          if hasCycle topologicalSorter
          then Some (Inr \<lparr>inputExpressions = input,
                          graphHasCycle = hasCycle topologicalSorter,
                          graphCycle' = getCycle topologicalSorter,
                          topologicalOrder' = None\<rparr>)
          else (case getOrdering topologicalSorter of
                  Inl e \<Rightarrow> Some (Inl e)
                | Inr ord \<Rightarrow> Some (Inr \<lparr>inputExpressions = input,
                                         graphHasCycle = hasCycle topologicalSorter,
                                         graphCycle' = None,
                                         topologicalOrder' = Some ord\<rparr>)))"

definition ExpressionResolver_hasCycle :: "ExpressionResolver \<Rightarrow> bool" where
  "ExpressionResolver_hasCycle r = graphHasCycle r"

definition ExpressionResolver_getCycle :: "ExpressionResolver \<Rightarrow> string list option" where
  "ExpressionResolver_getCycle r = graphCycle' r"

definition expand_expression :: "string obj \<Rightarrow> string \<Rightarrow> string obj \<Rightarrow> error + string obj" where
  "expand_expression input exprName expandedExpressions =
     (case map_of input exprName of
        None \<Rightarrow> Inl TypeError
      | Some expr \<Rightarrow>
          Inr (AList.update exprName
                 (replace_tokens
                    (\<lambda>exprVar. case map_of expandedExpressions exprVar of
                                 None \<Rightarrow> ''undefined'' | Some t \<Rightarrow> t)
                    expr)
                 expandedExpressions))"

fun expand_expressions :: "string obj \<Rightarrow> string list \<Rightarrow> string obj \<Rightarrow> error + string obj" where
  "expand_expressions input [] expandedExpressions = Inr expandedExpressions"
| "expand_expressions input (exprName # rest) expandedExpressions =
     (case expand_expression input exprName expandedExpressions of
        Inl e \<Rightarrow> Inl e
      | Inr expandedExpressions' \<Rightarrow> expand_expressions input rest expandedExpressions')"

definition getExpandedExpressions :: "ExpressionResolver \<Rightarrow> error + string obj" where
  "getExpandedExpressions r =
     (if ExpressionResolver_hasCycle r
      then Inl (Error ''Input expressions have a cycle. Cannot resolve dependencies in expressions.'')
      else expand_expressions (inputExpressions r) (order_list (topologicalOrder' r)) [])"

text \<open>What a thrown error is, apart from the wording of its message.\<close>

fun error_kind :: "error \<Rightarrow> string" where
  "error_kind (Error msg) = ''Error''"
| "error_kind TypeError = ''TypeError''"

subsection \<open>Objects and references\<close>

text \<open>
  The constructor and \<open>getExpandedEquations\<close> once more, this time with the objects they
  create and assign. Every \<open>new\<close> and every \<open>{}\<close> of the two functions adds a cell to
  the heap, and a reference is the position of a cell. The arrays and dictionaries inside
  a graph, a sorter and a resolver are kept by value in the cell of their owner; the
  cells of a graph and of a sorter hold them as they are when \<open>buildGraph\<close> and
  \<open>new TopologicalSorter\<close> have returned.
\<close>

datatype cell =
    ResolverObj EquationResolver
  | GraphObj Graph
  | SorterObj TopologicalSorter
  | PlainObj "string obj"

type_synonym heap = "cell list"

definition deref :: "heap \<Rightarrow> nat \<Rightarrow> cell option" where
  "deref h a = (if a < length h then Some (h ! a) else None)"

text \<open>
  \<open>new EquationResolver( inputEquations )\<close>: \<open>new\<close> creates \<open>this\<close>, the first statement
  assigns \<open>this.inputEquations\<close>, \<open>buildGraph\<close> creates the graph (\<open>new Graph()\<close>), then
  comes \<open>new TopologicalSorter( graph )\<close>, and the last statement assigns either
  \<open>this.graphCycle\<close> or \<open>this.topologicalOrder\<close>. The value is the reference \<open>this\<close>
  together with the heap, \<open>None\<close> when the sorter does not return.
\<close>

definition construct :: "string obj \<Rightarrow> heap \<Rightarrow> ((error + nat) \<times> heap) option" where
  "construct input h =
     (let this = length h;
          h1 = h @ [ResolverObj \<lparr>inputEquations = input, graphCycle = None,
                                 topologicalOrder = None\<rparr>];
          graph = buildGraph input;
          h2 = h1 @ [GraphObj graph]
      in new_TopologicalSorter graph \<bind>
           (\<lambda>topologicalSorter.
              let h3 = h2 @ [SorterObj topologicalSorter] in
              if hasCycle topologicalSorter
              then Some (Inr this,
                         h3[this := ResolverObj \<lparr>inputEquations = input,
                                                 graphCycle = getCycle topologicalSorter,
                                                 topologicalOrder = None\<rparr>])
              else (case getOrdering topologicalSorter of
                      Inl e \<Rightarrow> Some (Inl e, h3)
                    | Inr ord \<Rightarrow>
                        Some (Inr this,
                              h3[this := ResolverObj \<lparr>inputEquations = input,
                                                      graphCycle = None,
                                                      topologicalOrder = Some ord\<rparr>]))))"

text \<open>
  The \<open>_.forEach\<close> of \<open>getExpandedEquations\<close>. Each round reads the object behind the
  variable \<open>expandedEquations\<close>, computes one expanded text from it (\<open>expand_one\<close>), and
  assigns the property \<open>exprName\<close> of that same object. The variable always refers to
  the object created just before the loop, so the last case is never taken.
\<close>

fun forEach_expand :: "string obj \<Rightarrow> nat \<Rightarrow> string list \<Rightarrow> heap \<Rightarrow> error option \<times> heap" where
  "forEach_expand input expandedEquations [] h = (None, h)"
| "forEach_expand input expandedEquations (exprName # rest) h =
     (case deref h expandedEquations of
        Some (PlainObj m) \<Rightarrow>
          (case expand_one input exprName m of
             Inl e \<Rightarrow> (Some e, h)
           | Inr m' \<Rightarrow> forEach_expand input expandedEquations rest (h[expandedEquations := PlainObj m']))
      | _ \<Rightarrow> (Some TypeError, h))"

text \<open>
  \<open>getExpandedEquations\<close> called on the reference \<open>this\<close>: it reads \<open>this.graphCycle\<close>
  (in \<open>hasCycle\<close>), \<open>this.inputEquations\<close> and \<open>this.topologicalOrder\<close>, creates one
  object with \<open>expandedEquations = {}\<close>, fills it in the loop, and returns the reference
  to it. It assigns nothing to \<open>this\<close>. On a reference that does not lead to a resolver
  there is no such method to call.
\<close>

definition call_getExpandedEquations :: "nat \<Rightarrow> heap \<Rightarrow> (error + nat) \<times> heap" where
  "call_getExpandedEquations this h =
     (case deref h this of
        Some (ResolverObj r) \<Rightarrow>
          if EquationResolver_hasCycle r
          then (Inl (Error ''Input equations have a cycle. Cannot resolve dependencies in equations.''), h)
          else (let expandedEquations = length h;
                    h1 = h @ [PlainObj []]
                in (case forEach_expand (inputEquations r) expandedEquations
                           (order_list (topologicalOrder r)) h1 of
                      (Some e, h2) \<Rightarrow> (Inl e, h2)
                    | (None, h2) \<Rightarrow> (Inr expandedEquations, h2)))
      | _ \<Rightarrow> (Inl TypeError, h))"

section \<open>Notions of the specification\<close>

text \<open>
  A walk along the edges of a graph, and a cycle: a walk of at least one edge that ends
  where it starts.
\<close>

fun path_ok :: "Graph \<Rightarrow> string list \<Rightarrow> bool" where
  "path_ok g (x # y # rest) = (y \<in> set (getAdjacencyList g x) \<and> path_ok g (y # rest))"
| "path_ok g xs = True"

definition closed_walk :: "Graph \<Rightarrow> string list \<Rightarrow> bool" where
  "closed_walk g c = (2 \<le> length c \<and> hd c = last c \<and> path_ok g c)"

text \<open>\<open>y\<close> stands in the list before the first place of \<open>x\<close>, and \<open>x\<close> is in the list.\<close>

definition appears_before :: "string \<Rightarrow> string \<Rightarrow> string list \<Rightarrow> bool" where
  "appears_before y x xs = (y \<in> set (takeWhile (\<lambda>z. z \<noteq> x) xs) \<and> x \<in> set xs)"



text \<open>
  The expanded result is cached: the second of two calls returns the reference that the
  first call returned, and leaves every object as the first call left it.
\<close>

definition served_from_cache :: "nat \<Rightarrow> heap \<Rightarrow> bool" where
  "served_from_cache this h =
     (case call_getExpandedEquations this h of
        (res1, h1) \<Rightarrow>
          (case call_getExpandedEquations this h1 of
             (res2, h2) \<Rightarrow> res2 = res1 \<and> h2 = h1))"

text \<open>The inputs of the examples.\<close>

definition canonical_input :: "string obj" where
  "canonical_input = [(''A'', ''B+2''), (''B'', ''C+5''), (''C'', ''1''), (''D'', ''A+B'')]"

definition self_cycle_input :: "string obj" where
  "self_cycle_input = [(''A'', ''A+1'')]"

definition three_cycle_input :: "string obj" where
  "three_cycle_input = [(''A'', ''B+1''), (''B'', ''C+1''), (''C'', ''A+1'')]"

definition undefined_input :: "string obj" where
  "undefined_input = [(''A'', ''B+X''), (''B'', ''1'')]"

definition sample_ops :: "graph_op list" where
  "sample_ops = [AddVertex ''A'', AddVertex ''B'', AddEdge ''A'' ''B'', AddVertex ''A'',
                 AddEdge ''A'' ''B'']"

definition canonical_resolver :: EquationResolver where
  "canonical_resolver =
     \<lparr>inputEquations = canonical_input, graphCycle = None,
      topologicalOrder = Some [''C'', ''B'', ''A'', ''D'']\<rparr>"

definition canonical_output :: "string obj" where
  "canonical_output = [(''C'', ''1''), (''B'', ''1+5''), (''A'', ''1+5+2''), (''D'', ''1+5+2+1+5'')]"

text \<open>The sorter of the canonical equations when its constructor has returned.\<close>

definition canonical_sorter :: TopologicalSorter where
  "canonical_sorter =
     \<lparr>marked = {''A'', ''B'', ''C'', ''D''}, ordering = [''C'', ''B'', ''A'', ''D''], onStack = {},
      edgeTo = [''B'' \<mapsto> ''A'', ''C'' \<mapsto> ''B''], cycle = None\<rparr>"

section \<open>Invariants\<close>

text \<open>What may follow a run of upper-case letters for it to be a token.\<close>

definition ok_after :: "string \<Rightarrow> bool" where
  "ok_after rest = (case rest of [] \<Rightarrow> True | d # _ \<Rightarrow> \<not> is_word d \<and> d \<noteq> CHR ''('')"

text \<open>
  The scan as an automaton over the characters: outside a word, inside a word that cannot
  be a token any more, or in a run of upper-case letters that began at a word boundary.
  A step has no successor where the run is completed as a token.
\<close>

datatype scan_state = Outside | Inside | Run

fun step :: "scan_state \<Rightarrow> char \<Rightarrow> scan_state option" where
  "step Outside c = Some (if is_upper c then Run else if is_word c then Inside else Outside)"
| "step Inside c = Some (if is_word c then Inside else Outside)"
| "step Run c =
     (if is_upper c then Some Run
      else if is_word c then Some Inside
      else if c = CHR ''('' then Some Outside
      else None)"

fun run :: "scan_state \<Rightarrow> string \<Rightarrow> scan_state option" where
  "run q [] = Some q"
| "run q (c # cs) = (case step q c of None \<Rightarrow> None | Some q' \<Rightarrow> run q' cs)"

definition token_free_from :: "scan_state \<Rightarrow> string \<Rightarrow> bool" where
  "token_free_from q s = (case run q s of None \<Rightarrow> False | Some q' \<Rightarrow> q' \<noteq> Run)"

definition state_after :: "char option \<Rightarrow> scan_state" where
  "state_after prev = (if word_opt prev then Inside else Outside)"

text \<open>
  The traversal: \<open>stk\<close> is the path from the vertex being visited (first) back to the
  root of the search; \<open>edgeTo\<close> leads along it, and every entry is a neighbour of the
  next. As long as no cycle is recorded, every neighbour of a finished vertex is finished
  before it.
\<close>

fun chain :: "Graph \<Rightarrow> (string \<rightharpoonup> string) \<Rightarrow> string list \<Rightarrow> bool" where
  "chain g et (x # p # rest) =
     (et x = Some p \<and> x \<in> set (getAdjacencyList g p) \<and> chain g et (p # rest))"
| "chain g et stk = True"

definition finished_ok :: "Graph \<Rightarrow> string list \<Rightarrow> bool" where
  "finished_ok g ord =
     (\<forall>x \<in> set ord. \<forall>y \<in> set (getAdjacencyList g x). appears_before y x ord)"

definition sorter_inv :: "Graph \<Rightarrow> string list \<Rightarrow> TopologicalSorter \<Rightarrow> bool" where
  "sorter_inv g stk s =
     (distinct stk \<and> onStack s = set stk \<and> set stk \<subseteq> marked s \<and> marked s \<subseteq> nodes g \<and>
      chain g (edgeTo s) stk \<and> distinct (ordering s) \<and> set (ordering s) = marked s - set stk \<and>
      (cycle s = None \<longrightarrow> finished_ok g (ordering s)) \<and>
      (\<forall>c. cycle s = Some c \<longrightarrow> closed_walk g c))"

definition ext :: "TopologicalSorter \<Rightarrow> TopologicalSorter \<Rightarrow> bool" where
  "ext s s' = (marked s \<subseteq> marked s' \<and> (cycle s' = None \<longrightarrow> cycle s = None) \<and>
               (\<exists>zs. ordering s' = ordering s @ zs))"

definition dfs_pre :: "Graph \<Rightarrow> string list \<Rightarrow> string \<Rightarrow> string list \<Rightarrow> TopologicalSorter \<Rightarrow> bool" where
  "dfs_pre g stk v ws s =
     (sorter_inv g (v # stk) s \<and> set ws \<subseteq> set (getAdjacencyList g v) \<and>
      (cycle s = None \<longrightarrow> (\<forall>y \<in> set (getAdjacencyList g v) - set ws. y \<in> set (ordering s))))"

definition dfs_post :: "Graph \<Rightarrow> string list \<Rightarrow> string \<Rightarrow> TopologicalSorter \<Rightarrow> TopologicalSorter \<Rightarrow> bool" where
  "dfs_post g stk v s s' = (sorter_inv g stk s' \<and> ext s s' \<and> v \<in> set (ordering s'))"

text \<open>Graphs as \<open>addVertex\<close>, \<open>addEdge\<close> and \<open>buildGraph\<close> make them.\<close>

definition sources_are_vertices :: "Graph \<Rightarrow> bool" where
  "sources_are_vertices g = (fst ` edges g \<subseteq> set (getVertices g))"

definition graph_ok :: "Graph \<Rightarrow> bool" where
  "graph_ok g = (distinct (getVertices g) \<and> (\<forall>v. distinct (getAdjacencyList g v)) \<and>
                 (\<forall>v \<in> set (getVertices g). map_of (vertices g) v = Some True))"

definition build_inv :: "Graph \<Rightarrow> bool" where
  "build_inv g = (graph_ok g \<and> sources_are_vertices g)"

definition closed_graph :: "Graph \<Rightarrow> bool" where
  "closed_graph g = (nodes g = set (getVertices g))"

section \<open>The regular expression\<close>

lemma is_upper_word: "is_upper c \<Longrightarrow> is_word c"
  by (simp add: is_word_def)

lemma find_rev_upto_top:
  "0 < m \<Longrightarrow> P m \<Longrightarrow> List.find P (rev [1..<Suc m]) = Some m"
  by (cases m) auto

lemma find_rev_upto_none:
  "(\<And>k. 0 < k \<Longrightarrow> k \<le> m \<Longrightarrow> \<not> P k) \<Longrightarrow> List.find P (rev [1..<Suc m]) = None"
  by (auto simp: find_None_iff)

lemma nth_opt_run:
  "k < length (takeWhile is_upper s) \<Longrightarrow> nth_opt s k = Some (s ! k) \<and> is_upper (s ! k)"
proof -
  assume k: "k < length (takeWhile is_upper s)"
  have "length (takeWhile is_upper s) \<le> length s" by (rule length_takeWhile_le)
  with k have "k < length s" by simp
  moreover have "takeWhile is_upper s ! k = s ! k" using k by (rule takeWhile_nth)
  moreover have "takeWhile is_upper s ! k \<in> set (takeWhile is_upper s)" using k by simp
  then have "is_upper (takeWhile is_upper s ! k)" by (rule set_takeWhileD[THEN conjunct2])
  ultimately show ?thesis by (simp add: nth_opt_def)
qed

lemma nth_opt_after_run:
  "nth_opt s (length (takeWhile is_upper s)) =
     (case dropWhile is_upper s of [] \<Rightarrow> None | d # _ \<Rightarrow> Some d)"
  by (induction s) (auto simp: nth_opt_def)

lemma run_candidate:
  assumes "takeWhile is_upper s \<noteq> []"
  shows "(boundary (nth_opt s (length (takeWhile is_upper s) - 1))
                   (nth_opt s (length (takeWhile is_upper s)))
          \<and> nth_opt s (length (takeWhile is_upper s)) \<noteq> Some CHR ''('')
           = ok_after (dropWhile is_upper s)"
proof -
  have "length (takeWhile is_upper s) - 1 < length (takeWhile is_upper s)"
    using assms by (cases "takeWhile is_upper s") auto
  then have w: "word_opt (nth_opt s (length (takeWhile is_upper s) - 1))"
    using nth_opt_run[of "length (takeWhile is_upper s) - 1" s] by (auto intro: is_upper_word)
  show ?thesis
  proof (cases "dropWhile is_upper s")
    case Nil
    show ?thesis using w unfolding nth_opt_after_run ok_after_def Nil
      by (simp add: boundary_def)
  next
    case (Cons d ds)
    show ?thesis using w unfolding nth_opt_after_run ok_after_def Cons
      by (auto simp add: boundary_def)
  qed
qed

lemma shorter_candidate:
  assumes "0 < k" "k < length (takeWhile is_upper s)"
  shows "\<not> boundary (nth_opt s (k - 1)) (nth_opt s k)"
proof -
  have "word_opt (nth_opt s (k - 1))"
    using assms nth_opt_run[of "k - 1" s] by (auto intro: is_upper_word)
  moreover have "word_opt (nth_opt s k)"
    using assms nth_opt_run[of k s] by (auto intro: is_upper_word)
  ultimately show ?thesis by (simp add: boundary_def)
qed

lemma match_here_eq:
  "match_here prev s =
     (if \<not> word_opt prev \<and> takeWhile is_upper s \<noteq> [] \<and> ok_after (dropWhile is_upper s)
      then Some (length (takeWhile is_upper s)) else None)"
proof (cases "takeWhile is_upper s = []")
  case True
  then show ?thesis by (simp add: match_here_def)
next
  case False
  define m where "m = length (takeWhile is_upper s)"
  define P where "P = (\<lambda>k. boundary (nth_opt s (k - 1)) (nth_opt s k) \<and> nth_opt s k \<noteq> Some CHR ''('')"
  have m: "0 < m" using False by (simp add: m_def)
  have Pm: "P m = ok_after (dropWhile is_upper s)"
    unfolding P_def m_def using run_candidate[OF False] by simp
  have first: "word_opt (nth_opt s 0)"
    using m nth_opt_run[of 0 s] by (auto simp: m_def intro: is_upper_word)
  have find: "List.find P (rev [1..<Suc m]) = (if ok_after (dropWhile is_upper s) then Some m else None)"
  proof (cases "ok_after (dropWhile is_upper s)")
    case True
    then show ?thesis using find_rev_upto_top[of m P] m Pm by simp
  next
    case nok: False
    have "\<not> P k" if "0 < k" "k \<le> m" for k
    proof (cases "k = m")
      case True
      then show ?thesis using Pm nok by simp
    next
      case False
      then have "k < length (takeWhile is_upper s)" using that by (simp add: m_def)
      then show ?thesis using shorter_candidate[OF that(1)] by (simp add: P_def)
    qed
    then have "List.find P (rev [1..<Suc m]) = None" by (rule find_rev_upto_none)
    then show ?thesis using nok by simp
  qed
  have "match_here prev s =
          (if boundary prev (nth_opt s 0) then List.find P (rev [1..<Suc m]) else None)"
    by (simp only: match_here_def P_def m_def)
  also have "\<dots> = (if \<not> word_opt prev then
                       (if ok_after (dropWhile is_upper s) then Some m else None) else None)"
    using first by (simp only: find boundary_def) simp
  finally show ?thesis using False by (simp add: m_def)
qed

text \<open>The scan depends on the previous character only through its word status.\<close>

lemma regex_scan_prev_cong: "word_opt a = word_opt b \<Longrightarrow> regex_scan a s = regex_scan b s"
  by (cases s) (simp_all add: match_here_eq)

text \<open>
  What the scan does at a character: a token begins at an upper-case letter behind a
  non-word position whose run of upper-case letters is followed by the end of the text or
  by a non-word character other than an opening parenthesis; the token is the whole run.
\<close>

lemma regex_scan_Cons:
  "regex_scan prev (c # cs) =
     (if \<not> word_opt prev \<and> is_upper c \<and> ok_after (dropWhile is_upper cs)
      then Var (c # takeWhile is_upper cs) # regex_scan (Some c) (dropWhile is_upper cs)
      else Lit c # regex_scan (Some c) cs)"
proof (cases "\<not> word_opt prev \<and> is_upper c \<and> ok_after (dropWhile is_upper cs)")
  case True
  define n where "n = length (takeWhile is_upper cs)"
  have m: "match_here prev (c # cs) = Some (Suc n)"
    using True by (simp add: match_here_eq n_def)
  have d: "drop n cs = dropWhile is_upper cs"
    by (simp add: n_def dropWhile_eq_drop[symmetric])
  have t: "take n cs = takeWhile is_upper cs"
    by (simp add: n_def takeWhile_eq_take[symmetric])
  have "n < length (takeWhile is_upper (c # cs))" using True by (simp add: n_def)
  then have "word_opt (nth_opt (c # cs) n)"
    using nth_opt_run[of n "c # cs"] by (auto intro: is_upper_word)
  moreover have "word_opt (Some c)" using True by (simp add: is_upper_word)
  ultimately have eq: "regex_scan (nth_opt (c # cs) n) (dropWhile is_upper cs)
      = regex_scan (Some c) (dropWhile is_upper cs)"
    by (intro regex_scan_prev_cong) simp
  have "regex_scan prev (c # cs)
      = Var (c # take n cs) # regex_scan (nth_opt (c # cs) n) (drop n cs)"
    by (simp only: regex_scan.simps m option.case take_Suc_Cons drop_Suc_Cons diff_Suc_1)
  also have "\<dots> = Var (c # takeWhile is_upper cs) # regex_scan (Some c) (dropWhile is_upper cs)"
    by (simp only: d t eq)
  finally show ?thesis using True by (simp only: if_True simp_thms)
next
  case False
  then have "match_here prev (c # cs) = None"
    by (simp add: match_here_eq)
  then have "regex_scan prev (c # cs) = Lit c # regex_scan (Some c) cs"
    by (simp only: regex_scan.simps option.case)
  then show ?thesis using False by (simp only: if_False)
qed

declare regex_scan.simps(2) [simp del]

lemma run_append: "run q (a @ b) = (case run q a of None \<Rightarrow> None | Some q' \<Rightarrow> run q' b)"
  by (induction a arbitrary: q) (auto split: option.splits)

lemma run_Run_uppers: "\<forall>x \<in> set u. is_upper x \<Longrightarrow> run Run (u @ r) = run Run r"
  by (induction u) auto

lemma regex_scan_in_word:
  "word_opt prev \<Longrightarrow> regex_scan prev (c # cs) = Lit c # regex_scan (Some c) cs"
  by (simp add: regex_scan_Cons)

lemma regex_scan_words:
  "word_opt prev \<Longrightarrow> \<forall>x \<in> set u. is_word x \<Longrightarrow>
   regex_scan prev (u @ r) = map Lit u @ regex_scan prev r"
proof (induction u arbitrary: prev)
  case Nil
  then show ?case by simp
next
  case (Cons c u)
  from Cons.prems have c: "word_opt (Some c)" and u: "\<forall>x \<in> set u. is_word x" by simp_all
  from Cons.IH[OF c u] have "regex_scan (Some c) (u @ r) = map Lit u @ regex_scan (Some c) r" .
  moreover have "regex_scan (Some c) r = regex_scan prev r"
    using Cons.prems by (intro regex_scan_prev_cong) simp
  moreover have "regex_scan prev (c # u @ r) = Lit c # regex_scan (Some c) (u @ r)"
    using Cons.prems(1) by (rule regex_scan_in_word)
  ultimately show ?case by simp
qed

lemma vars_of_append: "vars_of (ps @ qs) = vars_of ps @ vars_of qs"
  by (induction ps rule: vars_of.induct) auto

lemma vars_of_Lits: "vars_of (map Lit u) = []"
  by (induction u) auto

lemma subst_pieces_append: "subst_pieces f (ps @ qs) = subst_pieces f ps @ subst_pieces f qs"
  by (induction ps rule: vars_of.induct) auto

lemma subst_pieces_Lits: "subst_pieces f (map Lit u) = u"
  by (induction u) auto

lemma uppers_are_upper: "\<forall>x \<in> set (takeWhile is_upper cs). is_upper x"
  by (auto dest: set_takeWhileD)

lemma not_ok_after:
  "\<not> ok_after r \<Longrightarrow> \<exists>d r'. r = d # r' \<and> (is_word d \<or> d = CHR ''('')"
  by (cases r) (auto simp: ok_after_def)

lemma is_word_paren: "\<not> is_word CHR ''(''"
  by (simp add: is_word_def is_upper_def)

lemma dropWhile_upper_hd: "dropWhile is_upper cs = d # r' \<Longrightarrow> \<not> is_upper d"
  by (metis hd_dropWhile list.distinct(1) list.sel(1))

lemma token_free_Cons:
  "step q c = Some q' \<Longrightarrow> token_free_from q (c # X) = token_free_from q' X"
  by (simp add: token_free_from_def)

lemma step_plain:
  "\<not> (\<not> word_opt prev \<and> is_upper c) \<Longrightarrow> step (state_after prev) c = Some (state_after (Some c))"
  by (auto simp: state_after_def is_upper_word)

lemma step_Run_reject:
  "\<not> is_upper d \<Longrightarrow> is_word d \<or> d = CHR ''('' \<Longrightarrow> step Run d = Some (state_after (Some d))"
  by (auto simp: state_after_def is_word_paren)

lemma step_after_token:
  "q \<noteq> Run \<Longrightarrow> \<not> is_word d \<Longrightarrow> step q d = Some Outside"
  by (cases q) (auto intro: is_upper_word)

text \<open>
  The three ways the scan can go on at a character: no attempt or a failed attempt with
  a plain character, a token, and a run of upper-case letters that is rejected by the
  character behind it.
\<close>

lemma scan_cases:
  obtains
    (plain) c cs where "s = c # cs" "\<not> (\<not> word_opt prev \<and> is_upper c)"
      "regex_scan prev s = Lit c # regex_scan (Some c) cs"
  | (token_end) c u where "s = c # u" "\<not> word_opt prev" "is_upper c" "\<forall>x \<in> set u. is_upper x"
      "regex_scan prev s = [Var (c # u)]"
  | (token) c u d r where "s = c # u @ d # r" "\<not> word_opt prev" "is_upper c"
      "\<forall>x \<in> set u. is_upper x" "\<not> is_word d" "d \<noteq> CHR ''(''"
      "regex_scan prev s = Var (c # u) # Lit d # regex_scan (Some d) r"
  | (reject) c u d r where "s = c # u @ d # r" "\<not> word_opt prev" "is_upper c"
      "\<forall>x \<in> set u. is_upper x" "\<not> is_upper d" "is_word d \<or> d = CHR ''(''"
      "regex_scan prev s = Lit c # map Lit u @ Lit d # regex_scan (Some d) r"
  | (empty) "s = []"
proof (cases s)
  case Nil
  then show ?thesis by (rule empty)
next
  case (Cons c cs)
  show ?thesis
  proof (cases "\<not> word_opt prev \<and> is_upper c")
    case False
    then have "regex_scan prev s = Lit c # regex_scan (Some c) cs"
      using Cons by (auto simp: regex_scan_Cons)
    with Cons False show ?thesis by (intro plain)
  next
    case True
    define u where "u = takeWhile is_upper cs"
    define r where "r = dropWhile is_upper cs"
    have cs: "cs = u @ r" by (simp add: u_def r_def)
    have up: "\<forall>x \<in> set u. is_upper x" unfolding u_def by (rule uppers_are_upper)
    have wc: "word_opt (Some c)" using True by (simp add: is_upper_word)
    show ?thesis
    proof (cases "ok_after r")
      case ok: True
      then have scan: "regex_scan prev s = Var (c # u) # regex_scan (Some c) r"
        using True Cons by (simp add: regex_scan_Cons u_def r_def)
      show ?thesis
      proof (cases r)
        case Nil
        with scan cs Cons True up show ?thesis by (intro token_end) auto
      next
        case (Cons d r')
        with ok have d: "\<not> is_word d" "d \<noteq> CHR ''(''" by (simp_all add: ok_after_def)
        have "regex_scan (Some c) r = Lit d # regex_scan (Some d) r'"
          unfolding Cons using wc by (rule regex_scan_in_word)
        with scan have "regex_scan prev s = Var (c # u) # Lit d # regex_scan (Some d) r'" by simp
        moreover have "s = c # u @ d # r'" using \<open>s = c # cs\<close> cs Cons by simp
        ultimately show ?thesis using True up d by (intro token) auto
      qed
    next
      case nok: False
      then obtain d r' where r: "r = d # r'" and d: "is_word d \<or> d = CHR ''(''"
        using not_ok_after by blast
      have nd: "\<not> is_upper d" using r unfolding r_def by (rule dropWhile_upper_hd)
      have "regex_scan prev s = Lit c # regex_scan (Some c) cs"
        using nok True Cons by (simp add: regex_scan_Cons r_def)
      also have "regex_scan (Some c) cs = map Lit u @ regex_scan (Some c) r"
        unfolding cs using wc up by (intro regex_scan_words) (auto intro: is_upper_word)
      also have "regex_scan (Some c) r = Lit d # regex_scan (Some d) r'"
        unfolding r using wc by (rule regex_scan_in_word)
      finally have "regex_scan prev s = Lit c # map Lit u @ Lit d # regex_scan (Some d) r'" .
      moreover have "s = c # u @ d # r'" using Cons cs r by simp
      ultimately show ?thesis using True up nd d by (intro reject) auto
    qed
  qed
qed

lemma token_free_scan:
  "(vars_of (regex_scan prev s) = []) = token_free_from (state_after prev) s"
proof (induction s arbitrary: prev rule: length_induct)
  case (1 s)
  show ?case
  proof (cases prev s rule: scan_cases)
    case empty
    then show ?thesis by (simp add: token_free_from_def state_after_def)
  next
    case (plain c cs)
    from 1 plain(1) have "(vars_of (regex_scan (Some c) cs) = [])
        = token_free_from (state_after (Some c)) cs" by simp
    then show ?thesis
      using plain token_free_Cons[OF step_plain[OF plain(2)]] by simp
  next
    case (token_end c u)
    then have "run (state_after prev) s = Some Run"
      using run_Run_uppers[of u "[]"] by (simp add: state_after_def)
    with token_end show ?thesis by (simp add: token_free_from_def)
  next
    case (token c u d r)
    have "step Run d = None" using token by (auto intro: is_upper_word)
    then have "run (state_after prev) s = None"
      using token run_Run_uppers[of u "d # r"] by (simp add: state_after_def)
    with token show ?thesis by (simp add: token_free_from_def)
  next
    case (reject c u d r)
    from 1 reject(1) have IH: "(vars_of (regex_scan (Some d) r) = [])
        = token_free_from (state_after (Some d)) r" by simp
    have "run (state_after prev) s = run (state_after (Some d)) r"
      using reject run_Run_uppers[of u "d # r"] step_Run_reject[of d]
      by (simp add: state_after_def)
    then have "token_free_from (state_after prev) s = token_free_from (state_after (Some d)) r"
      by (simp add: token_free_from_def)
    with IH reject show ?thesis by (simp add: vars_of_append vars_of_Lits)
  qed
qed

lemma subst_token_free:
  assumes f: "\<And>t. token_free_from Outside (f t)"
  shows "token_free_from (state_after prev) (subst_pieces f (regex_scan prev s))"
proof (induction s arbitrary: prev rule: length_induct)
  case (1 s)
  show ?case
  proof (cases prev s rule: scan_cases)
    case empty
    then show ?thesis by (simp add: token_free_from_def state_after_def)
  next
    case (plain c cs)
    from 1 plain(1) have
      "token_free_from (state_after (Some c)) (subst_pieces f (regex_scan (Some c) cs))" by simp
    then show ?thesis
      using plain token_free_Cons[OF step_plain[OF plain(2)]] by simp
  next
    case (token_end c u)
    with f[of "c # u"] show ?thesis by (simp add: state_after_def)
  next
    case (token c u d r)
    from f[of "c # u"] obtain q where q: "run Outside (f (c # u)) = Some q" "q \<noteq> Run"
      by (auto simp: token_free_from_def split: option.splits)
    from 1 token(1) have
      "token_free_from (state_after (Some d)) (subst_pieces f (regex_scan (Some d) r))" by simp
    then have "token_free_from Outside (subst_pieces f (regex_scan (Some d) r))"
      using token(5) by (simp add: state_after_def)
    then have "token_free_from q (d # subst_pieces f (regex_scan (Some d) r))"
      using token_free_Cons[OF step_after_token[OF q(2) token(5)]] by simp
    then have "token_free_from Outside (f (c # u) @ d # subst_pieces f (regex_scan (Some d) r))"
      using q(1) by (simp add: token_free_from_def run_append)
    with token show ?thesis by (simp add: state_after_def)
  next
    case (reject c u d r)
    from 1 reject(1) have IH:
      "token_free_from (state_after (Some d)) (subst_pieces f (regex_scan (Some d) r))" by simp
    have "run (state_after prev) (c # u @ d # subst_pieces f (regex_scan (Some d) r))
          = run (state_after (Some d)) (subst_pieces f (regex_scan (Some d) r))"
      using reject run_Run_uppers[of u "d # subst_pieces f (regex_scan (Some d) r)"]
            step_Run_reject[of d]
      by (simp add: state_after_def)
    then have "token_free_from (state_after prev) (c # u @ d # subst_pieces f (regex_scan (Some d) r))"
      using IH by (simp add: token_free_from_def)
    with reject show ?thesis by (simp add: subst_pieces_append subst_pieces_Lits)
  qed
qed

lemma match_tokens_free: "(match_tokens s = []) = token_free_from Outside s"
  using token_free_scan[of None s] by (simp add: match_tokens_def state_after_def)

lemma replace_tokens_free:
  assumes "\<And>t. match_tokens (f t) = []"
  shows "match_tokens (replace_tokens f s) = []"
  using subst_token_free[of f None s] assms
  by (simp add: match_tokens_free replace_tokens_def state_after_def)















section \<open>The graph\<close>

lemma set_update_subset: "set (AList.update k v al) \<subseteq> insert (k, v) (set al)"
  by (induction al) auto

lemma getVertices_addVertex:
  "getVertices (addVertex v g) =
     (if v \<in> set (getVertices g) then getVertices g else getVertices g @ [v])"
  by (simp add: getVertices_def addVertex_def update_keys)

lemma getAdjacencyList_addVertex [simp]:
  "getAdjacencyList (addVertex v g) = getAdjacencyList g"
  by (rule ext) (simp add: getAdjacencyList_def addVertex_def)

lemma getVertices_addEdge [simp]: "getVertices (addEdge v w g) = getVertices g"
  by (simp add: getVertices_def addEdge_def Let_def)

lemma vertices_addEdge [simp]: "vertices (addEdge v w g) = vertices g"
  by (simp add: addEdge_def Let_def)

lemma getAdjacencyList_addEdge:
  "getAdjacencyList (addEdge v w g) u =
     (if u = v
      then (if w \<in> set (getAdjacencyList g v) then getAdjacencyList g v
            else getAdjacencyList g v @ [w])
      else getAdjacencyList g u)"
  by (cases "map_of (adj g) v")
     (auto simp: getAdjacencyList_def addEdge_def Let_def update_conv')

lemma edges_addVertex [simp]: "edges (addVertex v g) = edges g"
  by (simp add: edges_def)

lemma edges_addEdge: "edges (addEdge v w g) = insert (v, w) (edges g)"
  by (auto simp: edges_def getAdjacencyList_addEdge split: if_splits)

lemma addEdge_present:
  assumes "w \<in> set (getAdjacencyList g v)"
  shows "addEdge v w g = g"
proof -
  from assms obtain ws where "map_of (adj g) v = Some ws" "w \<in> set ws"
    by (cases "map_of (adj g) v") (auto simp: getAdjacencyList_def)
  then show ?thesis by (simp add: addEdge_def)
qed

lemma addVertex_present:
  assumes "map_of (vertices g) v = Some True"
  shows "addVertex v g = g"
  using assms by (simp add: addVertex_def update_triv)

lemma graph_ok_newGraph: "graph_ok newGraph"
  by (simp add: graph_ok_def newGraph_def getVertices_def getAdjacencyList_def)

lemma graph_ok_addVertex:
  assumes "graph_ok g"
  shows "graph_ok (addVertex v g)"
proof -
  have "map_of (vertices (addVertex v g)) u = Some True"
    if "u \<in> set (getVertices (addVertex v g))" for u
  proof -
    from that have "u = v \<or> u \<in> set (getVertices g)"
      by (auto simp: getVertices_addVertex split: if_splits)
    then show ?thesis
      using assms by (auto simp: graph_ok_def addVertex_def update_conv')
  qed
  then show ?thesis
    using assms by (auto simp: graph_ok_def getVertices_addVertex)
qed

lemma graph_ok_addEdge:
  assumes "graph_ok g"
  shows "graph_ok (addEdge v w g)"
  using assms by (auto simp: graph_ok_def getAdjacencyList_addEdge)

lemma graph_ok_run_ops: "graph_ok (run_ops ops)"
proof -
  have "graph_ok g \<Longrightarrow> graph_ok (fold apply_op ops g)" for g
  proof (induction ops arbitrary: g)
    case Nil
    then show ?case by simp
  next
    case (Cons a ops)
    then show ?case by (cases a) (auto intro: graph_ok_addVertex graph_ok_addEdge)
  qed
  then show ?thesis by (simp add: run_ops_def graph_ok_newGraph)
qed

lemma build_inv_addVertex: "build_inv g \<Longrightarrow> build_inv (addVertex v g)"
  by (auto simp: build_inv_def sources_are_vertices_def getVertices_addVertex
           intro: graph_ok_addVertex)

lemma build_inv_dep:
  assumes "build_inv g" "n \<in> set (getVertices g)"
  shows "build_inv (addEdge n t (addVertex t g)) \<and> n \<in> set (getVertices (addEdge n t (addVertex t g)))"
  using assms
  by (auto simp: build_inv_def sources_are_vertices_def getVertices_addVertex edges_addEdge
           intro: graph_ok_addVertex graph_ok_addEdge)

lemma build_inv_deps:
  assumes "build_inv g" "n \<in> set (getVertices g)"
  shows "build_inv (fold (\<lambda>t g. addEdge n t (addVertex t g)) ts g)"
  using assms
proof (induction ts arbitrary: g)
  case Nil
  then show ?case by simp
next
  case (Cons t ts)
  from build_inv_dep[OF Cons.prems] Cons.IH show ?case by simp
qed

lemma build_inv_buildGraph: "build_inv (buildGraph input)"
proof -
  have "build_inv g \<Longrightarrow>
        build_inv (fold (\<lambda>(exprName, expr) graph.
             fold (\<lambda>exprDependencyName graph.
                     addEdge exprName exprDependencyName (addVertex exprDependencyName graph))
                  (match_tokens expr)
                  (addVertex exprName graph)) input g)" for g
  proof (induction input arbitrary: g)
    case Nil
    then show ?case by simp
  next
    case (Cons eq input)
    obtain n e where eq: "eq = (n, e)" by (cases eq)
    have "build_inv (addVertex n g)" using Cons.prems by (rule build_inv_addVertex)
    moreover have "n \<in> set (getVertices (addVertex n g))" by (simp add: getVertices_addVertex)
    ultimately have "build_inv (fold (\<lambda>t g. addEdge n t (addVertex t g)) (match_tokens e) (addVertex n g))"
      by (rule build_inv_deps)
    from Cons.IH[OF this] show ?case by (simp add: eq)
  qed
  moreover have "sources_are_vertices newGraph"
    by (simp add: sources_are_vertices_def edges_def newGraph_def getAdjacencyList_def)
  then have "build_inv newGraph"
    by (simp add: build_inv_def graph_ok_newGraph)
  ultimately show ?thesis by (simp add: buildGraph_def)
qed

lemma sources_are_vertices_buildGraph: "sources_are_vertices (buildGraph input)"
  using build_inv_buildGraph[of input] by (simp add: build_inv_def)

lemma graph_ok_buildGraph: "graph_ok (buildGraph input)"
  using build_inv_buildGraph[of input] by (simp add: build_inv_def)




lemma targets_addEdge:
  "set (concat (map snd (adj (addEdge v w g)))) \<subseteq> insert w (set (concat (map snd (adj g))))"
proof -
  have upd: "set (concat (map snd (AList.update k l al))) \<subseteq> set l \<union> set (concat (map snd al))" for k l al
    using set_update_subset[of k l al] by fastforce
  show ?thesis
  proof (cases "map_of (adj g) v")
    case None
    then show ?thesis
      using upd[of v "[w]" "AList.update v [] (adj g)"] upd[of v "[]" "adj g"]
      by (auto simp: addEdge_def Let_def update_conv')
  next
    case (Some ws)
    then have "(v, ws) \<in> set (adj g)" by (rule map_of_SomeD)
    then have "set ws \<subseteq> set (concat (map snd (adj g)))" by force
    then show ?thesis
      using Some upd[of v "ws @ [w]" "adj g"] by (auto simp: addEdge_def Let_def)
  qed
qed

lemma adj_addVertex: "adj (addVertex v g) = adj g"
  by (simp add: addVertex_def)

lemma nodes_addVertex: "nodes (addVertex v g) = insert v (nodes g)"
  unfolding nodes_def adj_addVertex by (auto simp: getVertices_addVertex)

lemma closed_graph_addVertex: "closed_graph g \<Longrightarrow> closed_graph (addVertex v g)"
  by (auto simp: closed_graph_def nodes_addVertex getVertices_addVertex)

lemma closed_graph_dep:
  assumes "closed_graph g"
  shows "closed_graph (addEdge n t (addVertex t g))"
proof -
  have "closed_graph (addVertex t g)" using assms by (rule closed_graph_addVertex)
  moreover have "t \<in> set (getVertices (addVertex t g))" by (simp add: getVertices_addVertex)
  ultimately show ?thesis
    using targets_addEdge[of n t "addVertex t g"]
    by (auto simp: closed_graph_def nodes_def)
qed

lemma vertices_deps:
  "closed_graph g \<Longrightarrow>
   closed_graph (fold (\<lambda>t g. addEdge n t (addVertex t g)) ts g) \<and>
   set (getVertices (fold (\<lambda>t g. addEdge n t (addVertex t g)) ts g)) = set (getVertices g) \<union> set ts"
proof (induction ts arbitrary: g)
  case Nil
  then show ?case by simp
next
  case (Cons t ts)
  from Cons.IH[OF closed_graph_dep[OF Cons.prems, of n t]] show ?case
    by (auto simp: getVertices_addVertex)
qed

lemma vertices_buildGraph:
  "closed_graph (buildGraph input) \<and>
   set (getVertices (buildGraph input)) =
     fst ` set input \<union> {t. \<exists>n e. (n, e) \<in> set input \<and> t \<in> set (match_tokens e)}"
proof -
  have "closed_graph g \<Longrightarrow>
        closed_graph (fold (\<lambda>(exprName, expr) graph.
             fold (\<lambda>exprDependencyName graph.
                     addEdge exprName exprDependencyName (addVertex exprDependencyName graph))
                  (match_tokens expr)
                  (addVertex exprName graph)) input g) \<and>
        set (getVertices (fold (\<lambda>(exprName, expr) graph.
             fold (\<lambda>exprDependencyName graph.
                     addEdge exprName exprDependencyName (addVertex exprDependencyName graph))
                  (match_tokens expr)
                  (addVertex exprName graph)) input g))
        = set (getVertices g) \<union> fst ` set input \<union>
          {t. \<exists>n e. (n, e) \<in> set input \<and> t \<in> set (match_tokens e)}" for g
  proof (induction input arbitrary: g)
    case Nil
    then show ?case by simp
  next
    case (Cons eq input)
    obtain n e where eq: "eq = (n, e)" by (cases eq)
    define g1 where "g1 = fold (\<lambda>t g. addEdge n t (addVertex t g)) (match_tokens e) (addVertex n g)"
    have "closed_graph (addVertex n g)" using Cons.prems by (rule closed_graph_addVertex)
    from vertices_deps[OF this, of n "match_tokens e"]
    have c1: "closed_graph g1"
      and v1: "set (getVertices g1) = insert n (set (getVertices g)) \<union> set (match_tokens e)"
      by (auto simp: g1_def getVertices_addVertex)
    from Cons.IH[OF c1] show ?case
      unfolding eq by (simp add: g1_def[symmetric] v1) blast
  qed
  moreover have "closed_graph newGraph"
    by (simp add: closed_graph_def nodes_def newGraph_def getVertices_def)
  moreover have "getVertices newGraph = []" by (simp add: newGraph_def getVertices_def)
  ultimately show ?thesis by (simp add: buildGraph_def)
qed

section \<open>The depth-first search\<close>

lemma ext_refl: "ext s s"
  by (simp add: ext_def)

lemma ext_trans: "ext s s1 \<Longrightarrow> ext s1 s2 \<Longrightarrow> ext s s2"
  by (auto simp: ext_def)

lemma appears_before_append: "appears_before y x xs \<Longrightarrow> appears_before y x (xs @ zs)"
  by (auto simp: appears_before_def takeWhile_append)

lemma appears_before_snoc:
  "y \<in> set xs \<Longrightarrow> x \<notin> set xs \<Longrightarrow> appears_before y x (xs @ [x])"
  by (auto simp: appears_before_def takeWhile_append)

lemma finished_ok_snoc:
  assumes "finished_ok g ord" "v \<notin> set ord" "\<forall>y \<in> set (getAdjacencyList g v). y \<in> set ord"
  shows "finished_ok g (ord @ [v])"
  using assms unfolding finished_ok_def
  by (auto intro: appears_before_append appears_before_snoc)

lemma chain_tail: "chain g et (x # stk) \<Longrightarrow> chain g et stk"
  by (cases stk) auto

lemma chain_upd:
  "chain g et stk \<Longrightarrow> w \<notin> set stk \<Longrightarrow> chain g (et(w \<mapsto> v)) stk"
  by (induction g et stk rule: chain.induct) auto

lemma dfs_leave:
  assumes "dfs_pre g stk v [] s"
  shows "dfs_post g stk v s (leave v s)"
proof -
  from assms have inv: "sorter_inv g (v # stk) s"
    and nb: "cycle s = None \<longrightarrow> (\<forall>y \<in> set (getAdjacencyList g v). y \<in> set (ordering s))"
    by (auto simp: dfs_pre_def)
  from inv have v: "v \<notin> set stk" "v \<in> marked s" "v \<notin> set (ordering s)"
    by (auto simp: sorter_inv_def)
  have "cycle s = None \<longrightarrow> finished_ok g (ordering s @ [v])"
    using inv nb v by (auto simp: sorter_inv_def intro!: finished_ok_snoc)
  then have "sorter_inv g stk (leave v s)"
    using inv v by (auto simp: sorter_inv_def leave_def dest: chain_tail)
  moreover have "ext s (leave v s)" by (simp add: ext_def leave_def)
  ultimately show ?thesis by (simp add: dfs_post_def leave_def)
qed

lemma dfs_skip_cycle:
  assumes "dfs_pre g stk v (w # ws) s" "cycle s \<noteq> None"
  shows "dfs_pre g stk v ws s"
  using assms by (auto simp: dfs_pre_def)

lemma dfs_skip_done:
  assumes "dfs_pre g stk v (w # ws) s" "w \<in> marked s" "w \<notin> onStack s"
  shows "dfs_pre g stk v ws s"
  using assms by (auto simp: dfs_pre_def sorter_inv_def)

lemma adj_in_nodes:
  assumes "w \<in> set (getAdjacencyList g v)"
  shows "w \<in> nodes g"
proof -
  from assms obtain l where l: "map_of (adj g) v = Some l" "w \<in> set l"
    by (cases "map_of (adj g) v") (auto simp: getAdjacencyList_def)
  then have "(v, l) \<in> set (adj g)" by (auto dest: map_of_SomeD)
  with l(2) have "w \<in> set (concat (map snd (adj g)))" by force
  then show ?thesis by (simp add: nodes_def)
qed

lemma dfs_push:
  assumes "dfs_pre g stk v (w # ws) s" "w \<notin> marked s"
  defines "s1 \<equiv> enter w (s\<lparr>edgeTo := (edgeTo s)(w \<mapsto> v)\<rparr>)"
  shows "dfs_pre g (v # stk) w (getAdjacencyList g w) s1"
    and "card (nodes g - marked s1) < card (nodes g - marked s)"
    and "ext s s1"
proof -
  from assms have inv: "sorter_inv g (v # stk) s" and w: "w \<in> set (getAdjacencyList g v)"
    by (auto simp: dfs_pre_def)
  have wn: "w \<in> nodes g"
    using w by (rule adj_in_nodes)
  have wstk: "w \<notin> set (v # stk)" using inv assms(2) by (auto simp: sorter_inv_def)
  have "chain g ((edgeTo s)(w \<mapsto> v)) (w # v # stk)"
    using inv w wstk chain_upd[of g "edgeTo s" "v # stk" w v] by (simp add: sorter_inv_def)
  then have "sorter_inv g (w # v # stk) s1"
    using inv wstk wn assms(2) unfolding sorter_inv_def s1_def enter_def
    by (auto simp del: chain.simps)
  then show "dfs_pre g (v # stk) w (getAdjacencyList g w) s1"
    by (simp add: dfs_pre_def)
  have "finite (nodes g - marked s)" by (simp add: nodes_def)
  moreover have "w \<in> nodes g - marked s" using wn assms(2) by simp
  moreover have "nodes g - marked s1 = (nodes g - marked s) - {w}"
    by (auto simp: s1_def enter_def)
  ultimately show "card (nodes g - marked s1) < card (nodes g - marked s)"
    using card_Diff1_less[of "nodes g - marked s" w] by simp
  show "ext s s1" by (auto simp: ext_def s1_def enter_def)
qed

lemma dfs_pop:
  assumes "dfs_pre g stk v (w # ws) s" "ext s s1" "dfs_post g (v # stk) w s1 s2"
  shows "dfs_pre g stk v ws s2" and "ext s s2"
proof -
  from assms(3) have inv2: "sorter_inv g (v # stk) s2" and e12: "ext s1 s2"
    and w2: "w \<in> set (ordering s2)"
    by (auto simp: dfs_post_def)
  show e: "ext s s2" using assms(2) e12 by (rule ext_trans)
  have "\<forall>y \<in> set (getAdjacencyList g v) - set ws. y \<in> set (ordering s2)" if "cycle s2 = None"
  proof -
    from that e have "cycle s = None" by (simp add: ext_def)
    with assms(1) have "\<forall>y \<in> set (getAdjacencyList g v) - set (w # ws). y \<in> set (ordering s)"
      by (simp add: dfs_pre_def)
    moreover from e obtain zs where "ordering s2 = ordering s @ zs" by (auto simp: ext_def)
    ultimately show ?thesis using w2 by auto
  qed
  then show "dfs_pre g stk v ws s2"
    using inv2 assms(1) by (auto simp: dfs_pre_def)
qed

lemma path_ok_snoc:
  "path_ok g (xs @ [a]) \<Longrightarrow> b \<in> set (getAdjacencyList g a) \<Longrightarrow> path_ok g (xs @ [a, b])"
  by (induction g xs rule: path_ok.induct) auto

lemma cycle_walk_stack:
  assumes "chain g et (v # stk)" "w \<in> set (v # stk)"
  shows "cycle_walk et w v acc = Some (rev (takeWhile (\<lambda>x. x \<noteq> w) (v # stk)) @ acc)"
  using assms
proof (induction stk arbitrary: v acc)
  case Nil
  then show ?case by (simp add: cycle_walk.simps)
next
  case (Cons p rest)
  show ?case
  proof (cases "v = w")
    case True
    then show ?thesis by (simp add: cycle_walk.simps)
  next
    case False
    with Cons.prems have "et v = Some p" "chain g et (p # rest)" "w \<in> set (p # rest)"
      by auto
    with Cons.IH[of p "v # acc"] False show ?thesis
      by (subst cycle_walk.simps) simp
  qed
qed

lemma walk_path:
  assumes "chain g et stk" "w \<in> set stk"
  shows "path_ok g (w # rev (takeWhile (\<lambda>x. x \<noteq> w) stk)) \<and>
         last (w # rev (takeWhile (\<lambda>x. x \<noteq> w) stk)) = hd stk"
  using assms
proof (induction stk)
  case Nil
  then show ?case by simp
next
  case (Cons x rest)
  show ?case
  proof (cases "x = w")
    case True
    then show ?thesis by simp
  next
    case False
    with Cons.prems have w: "w \<in> set rest" by simp
    then obtain p rest' where rest: "rest = p # rest'" by (cases rest) auto
    with Cons.prems have xp: "x \<in> set (getAdjacencyList g p)" and ch: "chain g et rest"
      by auto
    from Cons.IH[OF ch w] rest
    have ih: "path_ok g (w # rev (takeWhile (\<lambda>x. x \<noteq> w) rest))"
      and la: "last (w # rev (takeWhile (\<lambda>x. x \<noteq> w) rest)) = p"
      by auto
    define ys where "ys = butlast (w # rev (takeWhile (\<lambda>x. x \<noteq> w) rest))"
    have split: "w # rev (takeWhile (\<lambda>x. x \<noteq> w) rest) = ys @ [p]"
      unfolding ys_def using la by (metis append_butlast_last_id list.distinct(1))
    have "path_ok g (ys @ [p, x])"
      using ih xp unfolding split by (rule path_ok_snoc)
    then have "path_ok g ((w # rev (takeWhile (\<lambda>x. x \<noteq> w) rest)) @ [x])"
      unfolding split by simp
    then show ?thesis using False by simp
  qed
qed

lemma path_ok_trancl:
  "path_ok g (x # xs) \<Longrightarrow> xs \<noteq> [] \<Longrightarrow> (x, last xs) \<in> (edges g)\<^sup>+"
proof (induction xs arbitrary: x)
  case Nil
  then show ?case by simp
next
  case (Cons y ys)
  then have e: "(x, y) \<in> edges g" by (simp add: edges_def)
  show ?case
  proof (cases ys)
    case Nil
    then show ?thesis using e by auto
  next
    case (Cons z zs)
    with Cons.prems Cons.IH[of y] have "(y, last ys) \<in> (edges g)\<^sup>+" by simp
    with e show ?thesis using Cons by (auto intro: trancl_into_trancl2)
  qed
qed

lemma closed_walk_not_acyclic:
  assumes "closed_walk g c"
  shows "\<not> acyclic (edges g)"
proof -
  from assms have "2 \<le> length c" by (simp add: closed_walk_def)
  then obtain x xs where c: "c = x # xs" "xs \<noteq> []"
    by (cases c) fastforce+
  with assms have "(x, last xs) \<in> (edges g)\<^sup>+" "last xs = x"
    by (auto simp: closed_walk_def intro: path_ok_trancl)
  then show ?thesis by (auto simp: acyclic_def)
qed

lemma dfs_found:
  assumes "dfs_pre g stk v (w # ws) s" "w \<in> onStack s"
  shows "\<exists>c. cycle_walk (edgeTo s) w v [w] = Some c \<and>
             dfs_pre g stk v ws (s\<lparr>cycle := Some (w # c)\<rparr>) \<and>
             ext s (s\<lparr>cycle := Some (w # c)\<rparr>)"
proof -
  from assms have inv: "sorter_inv g (v # stk) s" and wv: "w \<in> set (getAdjacencyList g v)"
    and ws: "set ws \<subseteq> set (getAdjacencyList g v)"
    by (auto simp: dfs_pre_def)
  from inv assms(2) have ch: "chain g (edgeTo s) (v # stk)" and w: "w \<in> set (v # stk)"
    by (auto simp: sorter_inv_def)
  define tw where "tw = rev (takeWhile (\<lambda>x. x \<noteq> w) (v # stk))"
  have cw: "cycle_walk (edgeTo s) w v [w] = Some (tw @ [w])"
    unfolding tw_def using ch w by (rule cycle_walk_stack)
  from walk_path[OF ch w] have p: "path_ok g (w # tw)" and l: "last (w # tw) = v"
    by (auto simp: tw_def)
  define ys where "ys = butlast (w # tw)"
  have split: "w # tw = ys @ [v]"
    unfolding ys_def using l by (metis append_butlast_last_id list.distinct(1))
  have "path_ok g (ys @ [v, w])"
    using p wv unfolding split by (rule path_ok_snoc)
  then have "path_ok g (w # tw @ [w])"
    using split by (metis append_Cons append_assoc append_Nil)
  then have "closed_walk g (w # tw @ [w])"
    by (simp add: closed_walk_def)
  then have "sorter_inv g (v # stk) (s\<lparr>cycle := Some (w # tw @ [w])\<rparr>)"
    using inv by (simp add: sorter_inv_def)
  then have "dfs_pre g stk v ws (s\<lparr>cycle := Some (w # tw @ [w])\<rparr>)"
    using ws by (simp add: dfs_pre_def)
  moreover have "ext s (s\<lparr>cycle := Some (w # tw @ [w])\<rparr>)"
    by (simp add: ext_def)
  ultimately show ?thesis using cw by simp
qed

lemma dfs_post_ext:
  "ext s s1 \<Longrightarrow> dfs_post g stk v s1 s' \<Longrightarrow> dfs_post g stk v s s'"
  by (auto simp: dfs_post_def intro: ext_trans)

lemma dfs_from_Nil: "dfs_from g v [] s = Some (leave v s)"
  by (subst dfs_from.simps) simp

lemma dfs_from_Cons:
  "dfs_from g v (w # ws) s =
     (if cycle s \<noteq> None then dfs_from g v ws s
      else if w \<notin> marked s then
        dfs_from g w (getAdjacencyList g w) (enter w (s\<lparr>edgeTo := (edgeTo s)(w \<mapsto> v)\<rparr>))
          \<bind> dfs_from g v ws
      else if w \<in> onStack s then
        cycle_walk (edgeTo s) w v [w] \<bind> (\<lambda>c. dfs_from g v ws (s\<lparr>cycle := Some (w # c)\<rparr>))
      else dfs_from g v ws s)"
  by (subst dfs_from.simps) simp

lemma card_unmarked_mono:
  assumes "marked s \<subseteq> marked s'"
  shows "card (nodes g - marked s') \<le> card (nodes g - marked s)"
proof -
  have "finite (nodes g - marked s)" by (simp add: nodes_def)
  moreover have "nodes g - marked s' \<subseteq> nodes g - marked s" using assms by auto
  ultimately show ?thesis by (rule card_mono)
qed

lemma dfs_from_total:
  "dfs_pre g stk v ws s \<Longrightarrow> card (nodes g - marked s) \<le> n \<Longrightarrow>
   \<exists>s'. dfs_from g v ws s = Some s' \<and> dfs_post g stk v s s'"
proof (induction n arbitrary: stk v ws s rule: less_induct)
  case (less n)
  from less.prems show ?case
  proof (induction ws arbitrary: s)
    case Nil
    then show ?case by (auto simp: dfs_from_Nil intro: dfs_leave)
  next
    case (Cons w ws)
    note pre = Cons.prems(1) and card = Cons.prems(2)
    consider (skip) "cycle s \<noteq> None" | (new) "cycle s = None" "w \<notin> marked s"
      | (onpath) "cycle s = None" "w \<in> marked s" "w \<in> onStack s"
      | (seen) "cycle s = None" "w \<in> marked s" "w \<notin> onStack s"
      by blast
    then show ?case
    proof cases
      case skip
      with pre have "dfs_pre g stk v ws s" by (auto intro: dfs_skip_cycle)
      from Cons.IH[OF this card] skip show ?thesis by (simp add: dfs_from_Cons)
    next
      case seen
      with pre have "dfs_pre g stk v ws s" by (auto intro: dfs_skip_done)
      from Cons.IH[OF this card] seen show ?thesis by (simp add: dfs_from_Cons)
    next
      case onpath
      from dfs_found[OF pre onpath(3)] obtain c where
        c: "cycle_walk (edgeTo s) w v [w] = Some c"
        and pre': "dfs_pre g stk v ws (s\<lparr>cycle := Some (w # c)\<rparr>)"
        and e: "ext s (s\<lparr>cycle := Some (w # c)\<rparr>)"
        by blast
      have "card (nodes g - marked (s\<lparr>cycle := Some (w # c)\<rparr>)) \<le> n" using card by simp
      from Cons.IH[OF pre' this] obtain s' where
        "dfs_from g v ws (s\<lparr>cycle := Some (w # c)\<rparr>) = Some s'"
        "dfs_post g stk v (s\<lparr>cycle := Some (w # c)\<rparr>) s'"
        by blast
      with onpath c e show ?thesis
        by (auto simp: dfs_from_Cons intro: dfs_post_ext)
    next
      case new
      define s1 where "s1 = enter w (s\<lparr>edgeTo := (edgeTo s)(w \<mapsto> v)\<rparr>)"
      from dfs_push[OF pre new(2)]
      have pre1: "dfs_pre g (v # stk) w (getAdjacencyList g w) s1"
        and less1: "card (nodes g - marked s1) < card (nodes g - marked s)"
        and e1: "ext s s1"
        by (simp_all add: s1_def)
      from less1 card have "card (nodes g - marked s1) < n" by simp
      from less.IH[OF this pre1 order_refl] obtain s2 where
        s2: "dfs_from g w (getAdjacencyList g w) s1 = Some s2"
        and post2: "dfs_post g (v # stk) w s1 s2"
        by blast
      from dfs_pop[OF pre e1 post2] have pre2: "dfs_pre g stk v ws s2" and e2: "ext s s2"
        by simp_all
      from e2 have "marked s \<subseteq> marked s2" by (simp add: ext_def)
      then have "card (nodes g - marked s2) \<le> n"
        using card_unmarked_mono[of s s2 g] card by simp
      from Cons.IH[OF pre2 this] obtain s' where
        "dfs_from g v ws s2 = Some s'" "dfs_post g stk v s2 s'"
        by blast
      with new s2 e2 show ?thesis
        by (auto simp: dfs_from_Cons s1_def[symmetric] intro: dfs_post_ext)
    qed
  qed
qed

lemma dfs_root:
  assumes "sorter_inv g [] s" "v \<notin> marked s" "v \<in> nodes g"
  shows "\<exists>s'. dfs g v s = Some s' \<and> sorter_inv g [] s' \<and> ext s s' \<and> v \<in> marked s'"
proof -
  have "sorter_inv g [v] (enter v s)"
    using assms by (auto simp: sorter_inv_def enter_def)
  then have pre: "dfs_pre g [] v (getAdjacencyList g v) (enter v s)"
    by (simp add: dfs_pre_def)
  have e: "ext s (enter v s)" by (auto simp: ext_def enter_def)
  from dfs_from_total[OF pre order_refl] obtain s' where
    s': "dfs_from g v (getAdjacencyList g v) (enter v s) = Some s'"
    and post: "dfs_post g [] v (enter v s) s'"
    by blast
  from post e have "dfs_post g [] v s s'" by (auto intro: dfs_post_ext)
  then have "sorter_inv g [] s' \<and> ext s s' \<and> v \<in> marked s'"
    by (auto simp: dfs_post_def sorter_inv_def)
  with s' show ?thesis by (simp add: dfs_def)
qed

lemma dfs_all_total:
  assumes "sorter_inv g [] s" "set vs \<subseteq> nodes g"
  shows "\<exists>s'. dfs_all g vs s = Some s' \<and> sorter_inv g [] s' \<and> ext s s' \<and> set vs \<subseteq> marked s'"
  using assms
proof (induction vs arbitrary: s)
  case Nil
  then show ?case by (simp add: ext_refl)
next
  case (Cons v vs)
  show ?case
  proof (cases "v \<in> marked s")
    case True
    from Cons.IH[of s] Cons.prems obtain s' where
      "dfs_all g vs s = Some s'" "sorter_inv g [] s'" "ext s s'" "set vs \<subseteq> marked s'"
      by auto
    with True show ?thesis by (auto simp: ext_def)
  next
    case False
    from dfs_root[OF Cons.prems(1) False] Cons.prems(2) obtain s1 where
      s1: "dfs g v s = Some s1" "sorter_inv g [] s1" "ext s s1" "v \<in> marked s1"
      by auto
    from Cons.IH[OF s1(2)] Cons.prems(2) obtain s' where
      s': "dfs_all g vs s1 = Some s'" "sorter_inv g [] s'" "ext s1 s'" "set vs \<subseteq> marked s'"
      by auto
    from s1(3) s'(3) have "ext s s'" by (rule ext_trans)
    moreover from s1(4) s'(3) have "v \<in> marked s'" by (auto simp: ext_def)
    ultimately show ?thesis using False s1(1) s' by auto
  qed
qed

lemma new_TopologicalSorter_total:
  "\<exists>s. new_TopologicalSorter g = Some s \<and> sorter_inv g [] s \<and> set (getVertices g) \<subseteq> marked s"
proof -
  define s0 where
    "s0 = \<lparr>marked = {}, ordering = [], onStack = {}, edgeTo = Map.empty, cycle = None\<rparr>"
  have "sorter_inv g [] s0" by (simp add: sorter_inv_def s0_def finished_ok_def)
  moreover have "set (getVertices g) \<subseteq> nodes g" by (simp add: nodes_def)
  ultimately obtain s' where
    "dfs_all g (getVertices g) s0 = Some s'" "sorter_inv g [] s'" "set (getVertices g) \<subseteq> marked s'"
    using dfs_all_total[of g s0 "getVertices g"] by blast
  then show ?thesis by (auto simp: new_TopologicalSorter_def s0_def)
qed

lemma takeWhile_pos_less:
  "y \<in> set (takeWhile (\<lambda>z. z \<noteq> x) xs) \<Longrightarrow>
   length (takeWhile (\<lambda>z. z \<noteq> y) xs) < length (takeWhile (\<lambda>z. z \<noteq> x) xs)"
proof (induction xs)
  case Nil
  then show ?case by simp
next
  case (Cons a xs)
  show ?case
  proof (cases "a = x")
    case True
    with Cons.prems show ?thesis by simp
  next
    case False
    show ?thesis
    proof (cases "a = y")
      case True
      with False show ?thesis by simp
    next
      case ay: False
      with False Cons.prems have "y \<in> set (takeWhile (\<lambda>z. z \<noteq> x) xs)" by simp
      from Cons.IH[OF this] False ay show ?thesis by simp
    qed
  qed
qed

lemma finished_ok_acyclic:
  assumes "finished_ok g ord" "fst ` edges g \<subseteq> set ord"
  shows "acyclic (edges g)"
proof (rule acyclicI_order)
  fix a b
  assume ab: "(a, b) \<in> edges g"
  with assms(2) have "a \<in> set ord" by force
  with assms(1) ab have "appears_before b a ord" by (auto simp: finished_ok_def edges_def)
  then show "length (takeWhile (\<lambda>z. z \<noteq> b) ord) < length (takeWhile (\<lambda>z. z \<noteq> a) ord)"
    by (auto simp: appears_before_def intro: takeWhile_pos_less)
qed

lemma sorter_result:
  assumes "sources_are_vertices g"
  shows "\<exists>s. new_TopologicalSorter g = Some s \<and>
             (hasCycle s \<longleftrightarrow> \<not> acyclic (edges g)) \<and>
             (\<forall>c. cycle s = Some c \<longrightarrow> closed_walk g c) \<and>
             distinct (ordering s) \<and> set (getVertices g) \<subseteq> set (ordering s) \<and>
             (\<not> hasCycle s \<longrightarrow> finished_ok g (ordering s))"
proof -
  from new_TopologicalSorter_total[of g] obtain s where
    s: "new_TopologicalSorter g = Some s" and inv: "sorter_inv g [] s"
    and vs: "set (getVertices g) \<subseteq> marked s"
    by blast
  from inv have ord: "set (ordering s) = marked s" "distinct (ordering s)"
    and fin: "cycle s = None \<longrightarrow> finished_ok g (ordering s)"
    and cyc: "\<forall>c. cycle s = Some c \<longrightarrow> closed_walk g c"
    by (auto simp: sorter_inv_def)
  have "\<not> acyclic (edges g)" if "hasCycle s"
    using that cyc closed_walk_not_acyclic[of g] by (auto simp: hasCycle_def)
  moreover have "acyclic (edges g)" if "\<not> hasCycle s"
  proof -
    from that fin have "finished_ok g (ordering s)" by (simp add: hasCycle_def)
    moreover have "fst ` edges g \<subseteq> set (ordering s)"
      using assms vs ord by (auto simp: sources_are_vertices_def)
    ultimately show ?thesis by (rule finished_ok_acyclic)
  qed
  ultimately show ?thesis using s ord vs fin cyc by (auto simp: hasCycle_def)
qed

lemma sorter_ordering_set:
  assumes "new_TopologicalSorter g = Some s" "closed_graph g"
  shows "set (ordering s) = set (getVertices g)"
proof -
  from new_TopologicalSorter_total[of g] assms(1) have "sorter_inv g [] s"
    and "set (getVertices g) \<subseteq> marked s"
    by auto
  then show ?thesis using assms(2) by (auto simp: sorter_inv_def closed_graph_def)
qed

section \<open>The resolvers\<close>

lemma acyclic_buildGraph_eval:
  "acyclic (edges (buildGraph input)) =
     (map_option hasCycle (new_TopologicalSorter (buildGraph input)) = Some False)"
  using sorter_result[OF sources_are_vertices_buildGraph[of input]] by auto

lemma new_EquationResolver_result:
  assumes "new_TopologicalSorter (buildGraph input) = Some ts"
  shows "new_EquationResolver input =
           Some (Inr (if hasCycle ts
                      then \<lparr>inputEquations = input, graphCycle = cycle ts, topologicalOrder = None\<rparr>
                      else \<lparr>inputEquations = input, graphCycle = None,
                            topologicalOrder = Some (ordering ts)\<rparr>))"
  using assms by (simp add: new_EquationResolver_def getOrdering_def getCycle_def)

lemma cyclic_buildGraph_eval:
  "(\<not> acyclic (edges (buildGraph input))) =
     (map_option hasCycle (new_TopologicalSorter (buildGraph input)) = Some True)"
  using sorter_result[OF sources_are_vertices_buildGraph[of input]] by auto

lemma resolver_result:
  "\<exists>ts r. new_TopologicalSorter (buildGraph input) = Some ts \<and>
          new_EquationResolver input = Some (Inr r) \<and>
          inputEquations r = input \<and>
          (hasCycle ts \<longleftrightarrow> \<not> acyclic (edges (buildGraph input))) \<and>
          (EquationResolver_hasCycle r \<longleftrightarrow> hasCycle ts) \<and>
          EquationResolver_getCycle r = cycle ts \<and>
          (\<forall>c. cycle ts = Some c \<longrightarrow> closed_walk (buildGraph input) c) \<and>
          (\<not> hasCycle ts \<longrightarrow> topologicalOrder r = Some (ordering ts))"
proof -
  from sorter_result[OF sources_are_vertices_buildGraph[of input]] obtain ts where
    ts: "new_TopologicalSorter (buildGraph input) = Some ts"
    and hc: "hasCycle ts \<longleftrightarrow> \<not> acyclic (edges (buildGraph input))"
    and cw: "\<forall>c. cycle ts = Some c \<longrightarrow> closed_walk (buildGraph input) c"
    by blast
  show ?thesis
    using ts hc cw new_EquationResolver_result[OF ts]
    by (cases "hasCycle ts")
       (auto simp: EquationResolver_hasCycle_def EquationResolver_getCycle_def hasCycle_def)
qed

lemma undefined_token_free: "match_tokens ''undefined'' = []"
  by code_simp

lemma expand_one_token_free:
  assumes "\<forall>(n, txt) \<in> set acc. match_tokens txt = []" "expand_one input exprName acc = Inr acc'"
  shows "\<forall>(n, txt) \<in> set acc'. match_tokens txt = []"
proof -
  define f where "f = (\<lambda>exprVar. case map_of acc exprVar of None \<Rightarrow> ''undefined'' | Some t \<Rightarrow> t)"
  have f: "match_tokens (f t) = []" for t
  proof (cases "map_of acc t")
    case None
    then show ?thesis by (simp add: f_def undefined_token_free)
  next
    case (Some e)
    then have "(t, e) \<in> set acc" by (rule map_of_SomeD)
    with assms(1) Some show ?thesis by (auto simp: f_def)
  qed
  from assms(2) obtain expr where "acc' = AList.update exprName (replace_tokens f expr) acc"
    by (auto simp: expand_one_def f_def split: option.splits)
  moreover have "match_tokens (replace_tokens f expr) = []"
    using f by (rule replace_tokens_free)
  ultimately show ?thesis
    using assms(1) set_update_subset[of exprName "replace_tokens f expr" acc] by auto
qed

lemma expand_all_token_free:
  assumes "\<forall>(n, txt) \<in> set acc. match_tokens txt = []" "expand_all input ns acc = Inr out"
  shows "\<forall>(n, txt) \<in> set out. match_tokens txt = []"
  using assms
proof (induction ns arbitrary: acc)
  case Nil
  then show ?case by simp
next
  case (Cons n ns)
  from Cons.prems(2) obtain acc' where
    one: "expand_one input n acc = Inr acc'" and rest: "expand_all input ns acc' = Inr out"
    by (auto split: sum.splits)
  from expand_one_token_free[OF Cons.prems(1) one] have "\<forall>(n, txt) \<in> set acc'. match_tokens txt = []" .
  from Cons.IH[OF this rest] show ?case .
qed

lemma expand_all_result:
  "(\<exists>out. expand_all input ns acc = Inr out) \<or> expand_all input ns acc = Inl TypeError"
  by (induction ns arbitrary: acc) (auto simp: expand_one_def split: option.splits)

lemma expand_all_succeeds:
  "(\<exists>out. expand_all input ns acc = Inr out) = (\<forall>n \<in> set ns. map_of input n \<noteq> None)"
  by (induction ns arbitrary: acc) (auto simp: expand_one_def split: option.splits)

lemma expand_expressions_eq: "expand_expressions input ns acc = expand_all input ns acc"
  by (induction ns arbitrary: acc) (auto simp: expand_expression_def expand_one_def split: sum.splits)

lemma ExpressionResolver_buildGraph_eq: "ExpressionResolver_buildGraph input = buildGraph input"
  by (simp add: ExpressionResolver_buildGraph_def buildGraph_def)

lemma canonical_resolver_eval:
  "new_EquationResolver canonical_input = Some (Inr canonical_resolver)"
  by code_simp

lemma canonical_output_eval: "getExpandedEquations canonical_resolver = Inr canonical_output"
  by code_simp

lemma canonical_acyclic: "acyclic (edges (buildGraph canonical_input))"
proof -
  have "map_option hasCycle (new_TopologicalSorter (buildGraph canonical_input)) = Some False"
    by code_simp
  then show ?thesis by (simp only: acyclic_buildGraph_eval)
qed

subsection \<open>The resolver on the heap\<close>

lemma forEach_expand_result:
  assumes "a < length h" "h ! a = PlainObj acc" "expand_all input ns acc = Inr out"
  shows "forEach_expand input a ns h = (None, h[a := PlainObj out])"
  using assms
proof (induction ns arbitrary: acc h)
  case Nil
  then show ?case by (simp add: list_update_same_conv[THEN iffD2])
next
  case (Cons n ns)
  from Cons.prems(3) obtain acc' where
    one: "expand_one input n acc = Inr acc'" and rest: "expand_all input ns acc' = Inr out"
    by (auto split: sum.splits)
  have "forEach_expand input a ns (h[a := PlainObj acc']) = (None, h[a := PlainObj acc', a := PlainObj out])"
    using Cons.prems(1) rest by (intro Cons.IH[of "h[a := PlainObj acc']" acc']) simp_all
  then show ?case using Cons.prems(1,2) one by (simp add: deref_def)
qed

lemma forEach_expand_error:
  assumes "a < length h" "h ! a = PlainObj acc" "expand_all input ns acc = Inl e"
  shows "\<exists>m. forEach_expand input a ns h = (Some e, h[a := PlainObj m])"
  using assms
proof (induction ns arbitrary: acc h)
  case Nil
  then show ?case by simp
next
  case (Cons n ns)
  show ?case
  proof (cases "expand_one input n acc")
    case (Inl e')
    with Cons.prems have "forEach_expand input a (n # ns) h = (Some e, h[a := PlainObj acc])"
      by (simp add: deref_def list_update_same_conv[THEN iffD2])
    then show ?thesis by blast
  next
    case (Inr acc')
    with Cons.prems(3) have rest: "expand_all input ns acc' = Inl e" by simp
    have "\<exists>m. forEach_expand input a ns (h[a := PlainObj acc']) = (Some e, h[a := PlainObj acc', a := PlainObj m])"
      using Cons.prems(1) rest by (intro Cons.IH[of "h[a := PlainObj acc']" acc']) simp_all
    then show ?thesis using Cons.prems(1,2) Inr by (simp add: deref_def)
  qed
qed

lemma call_getExpandedEquations_result:
  assumes "deref h this = Some (ResolverObj r)" "getExpandedEquations r = Inr out"
  shows "call_getExpandedEquations this h = (Inr (length h), h @ [PlainObj out])"
proof -
  from assms(2) have nc: "\<not> EquationResolver_hasCycle r"
    and e: "expand_all (inputEquations r) (order_list (topologicalOrder r)) [] = Inr out"
    by (auto simp: getExpandedEquations_def split: if_splits)
  have "forEach_expand (inputEquations r) (length h) (order_list (topologicalOrder r)) (h @ [PlainObj []])
          = (None, (h @ [PlainObj []])[length h := PlainObj out])"
    using e by (intro forEach_expand_result[where acc = "[]"]) simp_all
  then show ?thesis using assms(1) nc by (simp add: call_getExpandedEquations_def)
qed

lemma call_getExpandedEquations_error:
  assumes "deref h this = Some (ResolverObj r)" "getExpandedEquations r = Inl e"
  shows "fst (call_getExpandedEquations this h) = Inl e"
proof (cases "EquationResolver_hasCycle r")
  case True
  with assms show ?thesis by (simp add: call_getExpandedEquations_def getExpandedEquations_def)
next
  case False
  with assms(2) have e: "expand_all (inputEquations r) (order_list (topologicalOrder r)) [] = Inl e"
    by (simp add: getExpandedEquations_def)
  have "\<exists>m. forEach_expand (inputEquations r) (length h) (order_list (topologicalOrder r)) (h @ [PlainObj []])
          = (Some e, (h @ [PlainObj []])[length h := PlainObj m])"
    using e by (intro forEach_expand_error[where acc = "[]"]) simp_all
  then show ?thesis using assms(1) False by (auto simp: call_getExpandedEquations_def)
qed

lemma construct_result:
  assumes "new_TopologicalSorter (buildGraph input) = Some ts"
    and "new_EquationResolver input = Some (Inr r)"
  shows "construct input h =
           Some (Inr (length h), h @ [ResolverObj r, GraphObj (buildGraph input), SorterObj ts])"
  using assms
  by (auto simp: construct_def new_EquationResolver_def getOrdering_def Let_def list_update_append1
           split: if_splits)

lemma expansion_succeeds:
  assumes "new_EquationResolver input = Some (Inr r)" "acyclic (edges (buildGraph input))"
    and "\<forall>(n, e) \<in> set input. \<forall>t \<in> set (match_tokens e). map_of input t \<noteq> None"
  shows "\<exists>out. getExpandedEquations r = Inr out"
proof -
  from resolver_result[of input] assms(1,2) obtain ts where
    ts: "new_TopologicalSorter (buildGraph input) = Some ts"
    and nc: "\<not> hasCycle ts" "\<not> EquationResolver_hasCycle r"
    and i: "inputEquations r = input"
    and o: "topologicalOrder r = Some (ordering ts)"
    by auto
  have g: "getExpandedEquations r = expand_all input (ordering ts) []"
    using nc i o by (simp add: getExpandedEquations_def order_list_def)
  from vertices_buildGraph[of input] have cg: "closed_graph (buildGraph input)"
    and vg: "set (getVertices (buildGraph input)) =
      fst ` set input \<union> {t. \<exists>n e. (n, e) \<in> set input \<and> t \<in> set (match_tokens e)}"
    by blast+
  have "set (ordering ts) = set (getVertices (buildGraph input))"
    using ts cg by (rule sorter_ordering_set)
  then have v: "set (ordering ts) =
      fst ` set input \<union> {t. \<exists>n e. (n, e) \<in> set input \<and> t \<in> set (match_tokens e)}"
    using vg by simp
  have names: "\<forall>n \<in> fst ` set input. map_of input n \<noteq> None"
    by (simp add: map_of_eq_None_iff)
  have "\<forall>n \<in> set (ordering ts). map_of input n \<noteq> None"
    unfolding v using names assms(3) by blast
  then have "\<exists>out. expand_all input (ordering ts) [] = Inr out"
    by (simp only: expand_all_succeeds)
  then show ?thesis unfolding g .
qed

lemma canonical_sorter_eval:
  "new_TopologicalSorter (buildGraph canonical_input) = Some canonical_sorter"
proof -
  have g: "buildGraph canonical_input =
      \<lparr>vertices = [(''A'', True), (''B'', True), (''C'', True), (''D'', True)],
       adj = [(''A'', [''B'']), (''B'', [''C'']), (''D'', [''A'', ''B''])]\<rparr>"
    by code_simp
  show ?thesis
    unfolding g
    by (auto simp: new_TopologicalSorter_def getVertices_def dfs_def getAdjacencyList_def
                   dfs_from_Nil dfs_from_Cons enter_def leave_def canonical_sorter_def)
qed

lemma canonical_construct:
  "construct canonical_input [] =
     Some (Inr 0, [ResolverObj canonical_resolver, GraphObj (buildGraph canonical_input),
                   SorterObj canonical_sorter])"
  using construct_result[OF canonical_sorter_eval canonical_resolver_eval, of "[]"] by simp

lemma canonical_closed:
  "\<forall>(n, e) \<in> set canonical_input. \<forall>t \<in> set (match_tokens e). map_of canonical_input t \<noteq> None"
proof -
  have "list_all (\<lambda>(n, e). list_all (\<lambda>t. map_of canonical_input t \<noteq> None) (match_tokens e))
          canonical_input"
    by code_simp
  then show ?thesis by (simp add: list_all_iff case_prod_unfold)
qed

section \<open>The claims\<close>

text \<open>
  Claim C1. For every acyclic set of equations the sorter returns an ordering without
  repetitions, and for every edge \<open>v \<rightarrow> w\<close> of the graph built from the equations, \<open>w\<close>
  stands strictly before \<open>v\<close> in it: dependencies come before dependents.
\<close>

theorem ordering_respects_dependencies:
  assumes "acyclic (edges (buildGraph input))"
  shows "\<exists>ts ord. new_TopologicalSorter (buildGraph input) = Some ts \<and>
                  getOrdering ts = Inr ord \<and> distinct ord \<and>
                  (\<forall>(v, w) \<in> edges (buildGraph input). appears_before w v ord)"
proof -
  define g where "g = buildGraph input"
  have sv: "sources_are_vertices g" unfolding g_def by (rule sources_are_vertices_buildGraph)
  from sorter_result[OF sv] obtain s where
    s: "new_TopologicalSorter g = Some s" and hc: "hasCycle s \<longleftrightarrow> \<not> acyclic (edges g)"
    and d: "distinct (ordering s)" and vs: "set (getVertices g) \<subseteq> set (ordering s)"
    and fin: "\<not> hasCycle s \<longrightarrow> finished_ok g (ordering s)"
    by blast
  from hc assms have nc: "\<not> hasCycle s" by (simp add: g_def)
  with fin have f: "finished_ok g (ordering s)" by simp
  have "appears_before w v (ordering s)" if "(v, w) \<in> edges g" for v w
  proof -
    from that sv have "v \<in> set (getVertices g)" by (force simp: sources_are_vertices_def)
    with vs have "v \<in> set (ordering s)" by auto
    with f that show ?thesis by (auto simp: finished_ok_def edges_def)
  qed
  moreover have "getOrdering s = Inr (ordering s)" using nc by (simp add: getOrdering_def)
  ultimately show ?thesis using s d unfolding g_def by blast
qed

text \<open>
  Claim C1 at the canonical equations, whose ordering is \<open>C, B, A, D\<close>.
\<close>

theorem ordering_respects_dependencies_witness:
  "acyclic (edges (buildGraph canonical_input)) \<and>
   (\<exists>ts ord. new_TopologicalSorter (buildGraph canonical_input) = Some ts \<and>
              getOrdering ts = Inr ord \<and> appears_before ''C'' ''B'' ord \<and>
              appears_before ''B'' ''A'' ord \<and> appears_before ''A'' ''D'' ord \<and>
              appears_before ''B'' ''D'' ord)"
proof -
  have "map_option hasCycle (new_TopologicalSorter (buildGraph canonical_input)) = Some False"
    by code_simp
  then have a: "acyclic (edges (buildGraph canonical_input))"
    by (simp only: acyclic_buildGraph_eval)
  have e: "(''B'', ''C'') \<in> edges (buildGraph canonical_input)"
     "(''A'', ''B'') \<in> edges (buildGraph canonical_input)"
     "(''D'', ''A'') \<in> edges (buildGraph canonical_input)"
     "(''D'', ''B'') \<in> edges (buildGraph canonical_input)"
    unfolding edges_def by (simp; code_simp)+
  from ordering_respects_dependencies[OF a] e a show ?thesis by fast
qed

text \<open>
  Claim C2. For the input \<open>{A: "B+2", B: "C+5", C: "1", D: "A+B"}\<close> \<open>hasCycle\<close> is false and
  \<open>getExpandedEquations\<close> returns the object with the entries \<open>C: "1"\<close>, \<open>B: "1+5"\<close>,
  \<open>A: "1+5+2"\<close>, \<open>D: "1+5+2+1+5"\<close> (in this order of insertion), which is the map
  \<open>{A: "1+5+2", B: "1+5", C: "1", D: "1+5+2+1+5"}\<close>.
\<close>

theorem canonical_example:
  "\<exists>r. new_EquationResolver canonical_input = Some (Inr r) \<and>
       EquationResolver_hasCycle r = False \<and>
       getExpandedEquations r =
         Inr [(''C'', ''1''), (''B'', ''1+5''), (''A'', ''1+5+2''), (''D'', ''1+5+2+1+5'')] \<and>
       map_of [(''C'', ''1''), (''B'', ''1+5''), (''A'', ''1+5+2''), (''D'', ''1+5+2+1+5'')] =
         [''A'' \<mapsto> ''1+5+2'', ''B'' \<mapsto> ''1+5'', ''C'' \<mapsto> ''1'', ''D'' \<mapsto> ''1+5+2+1+5'']"
proof -
  have r: "new_EquationResolver canonical_input =
          Some (Inr \<lparr>inputEquations = canonical_input, graphCycle = None,
                     topologicalOrder = Some [''C'', ''B'', ''A'', ''D'']\<rparr>)"
    by code_simp
  have e: "getExpandedEquations \<lparr>inputEquations = canonical_input, graphCycle = None,
                     topologicalOrder = Some [''C'', ''B'', ''A'', ''D'']\<rparr> =
         Inr [(''C'', ''1''), (''B'', ''1+5''), (''A'', ''1+5+2''), (''D'', ''1+5+2+1+5'')]"
    by code_simp
  have m: "map_of [(''C'', ''1''), (''B'', ''1+5''), (''A'', ''1+5+2''), (''D'', ''1+5+2+1+5'')] =
         [''A'' \<mapsto> ''1+5+2'', ''B'' \<mapsto> ''1+5'', ''C'' \<mapsto> ''1'', ''D'' \<mapsto> ''1+5+2+1+5'']"
    by (rule ext) simp
  show ?thesis using r e m by (simp add: EquationResolver_hasCycle_def)
qed

text \<open>
  Claim C3. The sorter's \<open>getOrdering\<close> returns an ordering exactly when the dependency
  graph of the input has no directed cycle and throws when it has one, and the resolver's
  \<open>getExpandedEquations\<close> throws whenever \<open>hasCycle\<close> holds, which is exactly when the
  graph has a cycle.
\<close>

theorem cycle_is_refused:
  "\<exists>ts r. new_TopologicalSorter (buildGraph input) = Some ts \<and>
          ((\<exists>ord. getOrdering ts = Inr ord) \<longleftrightarrow> acyclic (edges (buildGraph input))) \<and>
          (\<not> acyclic (edges (buildGraph input)) \<longrightarrow>
             getOrdering ts = Inl (Error ''Graph has a cycle, no topological ordering exists'')) \<and>
          new_EquationResolver input = Some (Inr r) \<and>
          (EquationResolver_hasCycle r \<longleftrightarrow> \<not> acyclic (edges (buildGraph input))) \<and>
          (EquationResolver_hasCycle r \<longrightarrow>
             getExpandedEquations r =
               Inl (Error ''Input equations have a cycle. Cannot resolve dependencies in equations.''))"
proof -
  from resolver_result[of input] obtain ts r where
    ts: "new_TopologicalSorter (buildGraph input) = Some ts"
    and r: "new_EquationResolver input = Some (Inr r)"
    and hc: "hasCycle ts \<longleftrightarrow> \<not> acyclic (edges (buildGraph input))"
    and rc: "EquationResolver_hasCycle r \<longleftrightarrow> hasCycle ts"
    by blast
  have "(\<exists>ord. getOrdering ts = Inr ord) \<longleftrightarrow> acyclic (edges (buildGraph input))"
    using hc by (auto simp: getOrdering_def)
  moreover have "\<not> acyclic (edges (buildGraph input)) \<longrightarrow>
      getOrdering ts = Inl (Error ''Graph has a cycle, no topological ordering exists'')"
    using hc by (auto simp: getOrdering_def)
  moreover have "EquationResolver_hasCycle r \<longrightarrow> getExpandedEquations r =
      Inl (Error ''Input equations have a cycle. Cannot resolve dependencies in equations.'')"
    by (simp add: getExpandedEquations_def)
  ultimately show ?thesis using ts r hc rc by blast
qed

text \<open>
  Claim C3 at \<open>{A: "A+1"}\<close>, whose graph has a cycle.
\<close>

theorem cycle_is_refused_witness:
  "\<not> acyclic (edges (buildGraph self_cycle_input)) \<and>
   (\<exists>ts r. new_TopologicalSorter (buildGraph self_cycle_input) = Some ts \<and>
           getOrdering ts = Inl (Error ''Graph has a cycle, no topological ordering exists'') \<and>
           new_EquationResolver self_cycle_input = Some (Inr r) \<and>
           EquationResolver_hasCycle r \<and>
           getExpandedEquations r =
             Inl (Error ''Input equations have a cycle. Cannot resolve dependencies in equations.''))"
proof -
  have "map_option hasCycle (new_TopologicalSorter (buildGraph self_cycle_input)) = Some True"
    by code_simp
  then have a: "\<not> acyclic (edges (buildGraph self_cycle_input))"
    by (simp only: cyclic_buildGraph_eval)
  from cycle_is_refused[of self_cycle_input] a show ?thesis by blast
qed

text \<open>
  Claim C4 asks that an input with a token that has no equation does not crash
  \<open>getExpandedEquations\<close>. It does: for \<open>{A: "X+1"}\<close> the resolver finds no cycle, the
  ordering is \<open>X, A\<close>, and the first round of the loop throws a TypeError, because
  \<open>inputEquations["X"]\<close> is \<open>undefined\<close>. On an acyclic input \<open>getExpandedEquations\<close>
  returns a mapping exactly when every token of every expression has an equation, and
  throws the TypeError otherwise.
\<close>

theorem undefined_variable_crashes:
  "(\<exists>r. new_EquationResolver [(''A'', ''X+1'')] = Some (Inr r) \<and>
        EquationResolver_hasCycle r = False \<and>
        topologicalOrder r = Some [''X'', ''A''] \<and>
        getExpandedEquations r = Inl TypeError) \<and>
   (\<forall>input r. new_EquationResolver input = Some (Inr r) \<and> acyclic (edges (buildGraph input)) \<longrightarrow>
        (if \<forall>(n, e) \<in> set input. \<forall>t \<in> set (match_tokens e). map_of input t \<noteq> None
         then \<exists>out. getExpandedEquations r = Inr out
         else getExpandedEquations r = Inl TypeError))"
proof (intro conjI allI impI)
  have r: "new_EquationResolver [(''A'', ''X+1'')] =
          Some (Inr \<lparr>inputEquations = [(''A'', ''X+1'')], graphCycle = None,
                     topologicalOrder = Some [''X'', ''A'']\<rparr>)"
    by code_simp
  have e: "getExpandedEquations \<lparr>inputEquations = [(''A'', ''X+1'')], graphCycle = None,
                     topologicalOrder = Some [''X'', ''A'']\<rparr> = Inl TypeError"
    by code_simp
  show "\<exists>r. new_EquationResolver [(''A'', ''X+1'')] = Some (Inr r) \<and>
        EquationResolver_hasCycle r = False \<and>
        topologicalOrder r = Some [''X'', ''A''] \<and>
        getExpandedEquations r = Inl TypeError"
    using r e by (simp add: EquationResolver_hasCycle_def)
next
  fix input r
  assume a: "new_EquationResolver input = Some (Inr r) \<and> acyclic (edges (buildGraph input))"
  from resolver_result[of input] a obtain ts where
    ts: "new_TopologicalSorter (buildGraph input) = Some ts"
    and nc: "\<not> hasCycle ts" "\<not> EquationResolver_hasCycle r"
    and i: "inputEquations r = input"
    and o: "topologicalOrder r = Some (ordering ts)"
    by auto
  have g: "getExpandedEquations r = expand_all input (ordering ts) []"
    using nc i o by (simp add: getExpandedEquations_def order_list_def)
  from vertices_buildGraph[of input] have cg: "closed_graph (buildGraph input)"
    and vg: "set (getVertices (buildGraph input)) =
      fst ` set input \<union> {t. \<exists>n e. (n, e) \<in> set input \<and> t \<in> set (match_tokens e)}"
    by blast+
  have "set (ordering ts) = set (getVertices (buildGraph input))"
    using ts cg by (rule sorter_ordering_set)
  then have v: "set (ordering ts) =
      fst ` set input \<union> {t. \<exists>n e. (n, e) \<in> set input \<and> t \<in> set (match_tokens e)}"
    using vg by simp
  have names: "\<forall>n \<in> fst ` set input. map_of input n \<noteq> None"
    by (simp add: map_of_eq_None_iff)
  have "(\<forall>n \<in> set (ordering ts). map_of input n \<noteq> None) =
        (\<forall>(n, e) \<in> set input. \<forall>t \<in> set (match_tokens e). map_of input t \<noteq> None)"
    unfolding v using names by blast
  then have s: "(\<exists>out. expand_all input (ordering ts) [] = Inr out) =
        (\<forall>(n, e) \<in> set input. \<forall>t \<in> set (match_tokens e). map_of input t \<noteq> None)"
    by (simp only: expand_all_succeeds)
  show "if \<forall>(n, e) \<in> set input. \<forall>t \<in> set (match_tokens e). map_of input t \<noteq> None
         then \<exists>out. getExpandedEquations r = Inr out
         else getExpandedEquations r = Inl TypeError"
  proof (cases "\<forall>(n, e) \<in> set input. \<forall>t \<in> set (match_tokens e). map_of input t \<noteq> None")
    case True
    with s have "\<exists>out. expand_all input (ordering ts) [] = Inr out" by (rule iffD2)
    then show ?thesis unfolding g if_P[OF True] .
  next
    case False
    with s have "\<not> (\<exists>out. expand_all input (ordering ts) [] = Inr out)" by blast
    with expand_all_result[of input "ordering ts" "[]"]
    have "expand_all input (ordering ts) [] = Inl TypeError" by blast
    then show ?thesis unfolding g if_not_P[OF False] .
  qed
qed

text \<open>
  Claim C4 at \<open>{A: "B+X", B: "1"}\<close>: the graph is acyclic, \<open>X\<close> has no equation, and
  \<open>getExpandedEquations\<close> throws the TypeError.
\<close>

theorem undefined_variable_crashes_witness:
  "acyclic (edges (buildGraph undefined_input)) \<and>
   (''A'', ''B+X'') \<in> set undefined_input \<and> ''X'' \<in> set (match_tokens ''B+X'') \<and>
   map_of undefined_input ''X'' = None \<and>
   (\<exists>r. new_EquationResolver undefined_input = Some (Inr r) \<and>
        topologicalOrder r = Some [''B'', ''X'', ''A''] \<and>
        getExpandedEquations r = Inl TypeError)"
proof -
  have "map_option hasCycle (new_TopologicalSorter (buildGraph undefined_input)) = Some False"
    by code_simp
  then have a: "acyclic (edges (buildGraph undefined_input))"
    by (simp only: acyclic_buildGraph_eval)
  have r: "new_EquationResolver undefined_input =
          Some (Inr \<lparr>inputEquations = undefined_input, graphCycle = None,
                     topologicalOrder = Some [''B'', ''X'', ''A'']\<rparr>)"
    by code_simp
  have m: "(''A'', ''B+X'') \<in> set undefined_input" by (simp add: undefined_input_def)
  have t: "''X'' \<in> set (match_tokens ''B+X'')" by code_simp
  have n: "map_of undefined_input ''X'' = None" by (simp add: undefined_input_def)
  from m t n have open_input:
    "\<not> (\<forall>(n, e) \<in> set undefined_input. \<forall>t \<in> set (match_tokens e).
           map_of undefined_input t \<noteq> None)"
    by blast
  from undefined_variable_crashes[THEN conjunct2, rule_format, OF conjI, OF r a] open_input
  have "getExpandedEquations \<lparr>inputEquations = undefined_input, graphCycle = None,
                     topologicalOrder = Some [''B'', ''X'', ''A'']\<rparr> = Inl TypeError"
    by (simp only: if_False)
  with a m t n r show ?thesis by simp
qed



text \<open>
  Claim C6. For \<open>{A: "A+1"}\<close> the resolver reports a cycle and \<open>getCycle\<close> is
  \<open>["A", "A"]\<close>; whenever a resolver reports a cycle, the cycle it returns has at least two
  entries, starts and ends with the same name, and every entry depends on the next.
\<close>

theorem self_cycle_detected:
  "(\<exists>r. new_EquationResolver [(''A'', ''A+1'')] = Some (Inr r) \<and>
        EquationResolver_hasCycle r \<and> EquationResolver_getCycle r = Some [''A'', ''A'']) \<and>
   (\<forall>input r. new_EquationResolver input = Some (Inr r) \<and> EquationResolver_hasCycle r \<longrightarrow>
        (\<exists>c. EquationResolver_getCycle r = Some c \<and> 2 \<le> length c \<and> hd c = last c \<and>
             closed_walk (buildGraph input) c))"
proof (intro conjI allI impI)
  have "new_EquationResolver [(''A'', ''A+1'')] =
          Some (Inr \<lparr>inputEquations = [(''A'', ''A+1'')], graphCycle = Some [''A'', ''A''],
                     topologicalOrder = None\<rparr>)"
    by code_simp
  then show "\<exists>r. new_EquationResolver [(''A'', ''A+1'')] = Some (Inr r) \<and>
        EquationResolver_hasCycle r \<and> EquationResolver_getCycle r = Some [''A'', ''A'']"
    by (simp add: EquationResolver_hasCycle_def EquationResolver_getCycle_def)
next
  fix input r
  assume a: "new_EquationResolver input = Some (Inr r) \<and> EquationResolver_hasCycle r"
  from resolver_result[of input] a obtain ts where
    "hasCycle ts" "EquationResolver_getCycle r = cycle ts"
    "\<forall>c. cycle ts = Some c \<longrightarrow> closed_walk (buildGraph input) c"
    by auto
  then show "\<exists>c. EquationResolver_getCycle r = Some c \<and> 2 \<le> length c \<and> hd c = last c \<and>
             closed_walk (buildGraph input) c"
    by (auto simp: hasCycle_def closed_walk_def)
qed

text \<open>
  Claim C6 at \<open>{A: "B+1", B: "C+1", C: "A+1"}\<close>, whose cycle is \<open>A, B, C, A\<close>.
\<close>

theorem self_cycle_detected_witness:
  "(\<exists>r. new_EquationResolver three_cycle_input = Some (Inr r) \<and> EquationResolver_hasCycle r \<and>
        EquationResolver_getCycle r = Some [''A'', ''B'', ''C'', ''A''] \<and>
        closed_walk (buildGraph three_cycle_input) [''A'', ''B'', ''C'', ''A''])"
proof -
  have r: "new_EquationResolver three_cycle_input =
          Some (Inr \<lparr>inputEquations = three_cycle_input,
                     graphCycle = Some [''A'', ''B'', ''C'', ''A''], topologicalOrder = None\<rparr>)"
    by code_simp
  have h: "EquationResolver_hasCycle \<lparr>inputEquations = three_cycle_input,
                     graphCycle = Some [''A'', ''B'', ''C'', ''A''], topologicalOrder = None\<rparr>"
    by (simp add: EquationResolver_hasCycle_def)
  from self_cycle_detected[THEN conjunct2, rule_format, OF conjI, OF r h] r h
  show ?thesis by (auto simp: EquationResolver_getCycle_def)
qed

text \<open>
  Claim C7 says that the expanded result is computed once and cached. It is not: on the
  canonical equations the first call of \<open>getExpandedEquations\<close> creates and fills a
  result object, and the second call creates and fills another one; the second call
  returns another reference than the first, and the heap has grown by one more object.
\<close>

theorem second_call_recomputes:
  "acyclic (edges (buildGraph canonical_input)) \<and>
   construct canonical_input [] =
     Some (Inr 0, [ResolverObj canonical_resolver, GraphObj (buildGraph canonical_input),
                   SorterObj canonical_sorter]) \<and>
   \<not> served_from_cache 0
       [ResolverObj canonical_resolver, GraphObj (buildGraph canonical_input),
        SorterObj canonical_sorter] \<and>
   call_getExpandedEquations 0
       [ResolverObj canonical_resolver, GraphObj (buildGraph canonical_input),
        SorterObj canonical_sorter] =
     (Inr 3, [ResolverObj canonical_resolver, GraphObj (buildGraph canonical_input),
              SorterObj canonical_sorter, PlainObj canonical_output]) \<and>
   call_getExpandedEquations 0
       [ResolverObj canonical_resolver, GraphObj (buildGraph canonical_input),
        SorterObj canonical_sorter, PlainObj canonical_output] =
     (Inr 4, [ResolverObj canonical_resolver, GraphObj (buildGraph canonical_input),
              SorterObj canonical_sorter, PlainObj canonical_output,
              PlainObj canonical_output])"
proof -
  let ?h0 = "[ResolverObj canonical_resolver, GraphObj (buildGraph canonical_input),
              SorterObj canonical_sorter]"
  have d0: "deref ?h0 0 = Some (ResolverObj canonical_resolver)" by (simp add: deref_def)
  have d1: "deref (?h0 @ [PlainObj canonical_output]) 0 = Some (ResolverObj canonical_resolver)"
    by (simp add: deref_def)
  from call_getExpandedEquations_result[OF d0 canonical_output_eval]
  have c1: "call_getExpandedEquations 0 ?h0 = (Inr 3, ?h0 @ [PlainObj canonical_output])"
    by simp
  from call_getExpandedEquations_result[OF d1 canonical_output_eval]
  have c2: "call_getExpandedEquations 0 (?h0 @ [PlainObj canonical_output]) =
              (Inr 4, ?h0 @ [PlainObj canonical_output, PlainObj canonical_output])"
    by simp
  from c1 c2 have n: "\<not> served_from_cache 0 ?h0" by (simp add: served_from_cache_def)
  from canonical_acyclic canonical_construct n c1 c2 show ?thesis by simp
qed

text \<open>
  Claim C7, as the code has it. Take an acyclic input in which every variable token has
  an equation, and any heap. The constructor creates the resolver, one graph and one
  sorter, and stores the sorter's ordering in the resolver. Each of two calls of
  \<open>getExpandedEquations\<close> then returns a reference to an object that it has created itself,
  and both objects hold the same mapping, the expansion along the stored ordering. Apart
  from these two result objects the heap is as the constructor left it: no call creates a
  graph or a sorter, and no call changes the resolver. The result is not cached.
\<close>

theorem repeated_expansion:
  "acyclic (edges (buildGraph input)) \<and>
   (\<forall>(n, e) \<in> set input. \<forall>t \<in> set (match_tokens e). map_of input t \<noteq> None) \<longrightarrow>
   (\<exists>r ts out h0.
      new_TopologicalSorter (buildGraph input) = Some ts \<and>
      construct input h = Some (Inr (length h), h0) \<and>
      h0 = h @ [ResolverObj r, GraphObj (buildGraph input), SorterObj ts] \<and>
      inputEquations r = input \<and> graphCycle r = None \<and>
      topologicalOrder r = Some (ordering ts) \<and>
      getExpandedEquations r = Inr out \<and>
      call_getExpandedEquations (length h) h0 = (Inr (length h0), h0 @ [PlainObj out]) \<and>
      call_getExpandedEquations (length h) (h0 @ [PlainObj out]) =
        (Inr (Suc (length h0)), h0 @ [PlainObj out, PlainObj out]) \<and>
      \<not> served_from_cache (length h) h0)"
proof
  assume a: "acyclic (edges (buildGraph input)) \<and>
   (\<forall>(n, e) \<in> set input. \<forall>t \<in> set (match_tokens e). map_of input t \<noteq> None)"
  from resolver_result[of input] a obtain ts r where
    ts: "new_TopologicalSorter (buildGraph input) = Some ts"
    and r: "new_EquationResolver input = Some (Inr r)"
    and i: "inputEquations r = input"
    and nc: "\<not> EquationResolver_hasCycle r"
    and o: "topologicalOrder r = Some (ordering ts)"
    by auto
  from expansion_succeeds[OF r] a obtain out where out: "getExpandedEquations r = Inr out"
    by blast
  define h0 where "h0 = h @ [ResolverObj r, GraphObj (buildGraph input), SorterObj ts]"
  have c: "construct input h = Some (Inr (length h), h0)"
    unfolding h0_def using ts r by (rule construct_result)
  have d0: "deref h0 (length h) = Some (ResolverObj r)"
    by (simp add: deref_def h0_def)
  have d1: "deref (h0 @ [PlainObj out]) (length h) = Some (ResolverObj r)"
    by (simp add: deref_def h0_def nth_append)
  from call_getExpandedEquations_result[OF d0 out]
  have c1: "call_getExpandedEquations (length h) h0 = (Inr (length h0), h0 @ [PlainObj out])" .
  from call_getExpandedEquations_result[OF d1 out]
  have c2: "call_getExpandedEquations (length h) (h0 @ [PlainObj out]) =
        (Inr (Suc (length h0)), h0 @ [PlainObj out, PlainObj out])"
    by simp
  from c1 c2 have n: "\<not> served_from_cache (length h) h0" by (simp add: served_from_cache_def)
  from nc have g: "graphCycle r = None" by (simp add: EquationResolver_hasCycle_def)
  from ts c h0_def i g o out c1 c2 n
  show "\<exists>r ts out h0.
      new_TopologicalSorter (buildGraph input) = Some ts \<and>
      construct input h = Some (Inr (length h), h0) \<and>
      h0 = h @ [ResolverObj r, GraphObj (buildGraph input), SorterObj ts] \<and>
      inputEquations r = input \<and> graphCycle r = None \<and>
      topologicalOrder r = Some (ordering ts) \<and>
      getExpandedEquations r = Inr out \<and>
      call_getExpandedEquations (length h) h0 = (Inr (length h0), h0 @ [PlainObj out]) \<and>
      call_getExpandedEquations (length h) (h0 @ [PlainObj out]) =
        (Inr (Suc (length h0)), h0 @ [PlainObj out, PlainObj out]) \<and>
      \<not> served_from_cache (length h) h0"
    by (intro exI conjI)
qed

text \<open>
  Claim C7, as the code has it, at the canonical equations, on a heap that holds one
  object already.
\<close>

theorem repeated_expansion_witness:
  "acyclic (edges (buildGraph canonical_input)) \<and>
   map fst canonical_input = [''A'', ''B'', ''C'', ''D''] \<and>
   concat (map (\<lambda>(n, e). match_tokens e) canonical_input) = [''B'', ''C'', ''A'', ''B''] \<and>
   (\<exists>h0. construct canonical_input [PlainObj []] = Some (Inr 1, h0) \<and>
      h0 = [PlainObj [], ResolverObj canonical_resolver, GraphObj (buildGraph canonical_input),
            SorterObj canonical_sorter] \<and>
      getExpandedEquations canonical_resolver = Inr canonical_output \<and>
      call_getExpandedEquations 1 h0 = (Inr 4, h0 @ [PlainObj canonical_output]) \<and>
      call_getExpandedEquations 1 (h0 @ [PlainObj canonical_output]) =
        (Inr 5, h0 @ [PlainObj canonical_output, PlainObj canonical_output]) \<and>
      \<not> served_from_cache 1 h0)"
proof -
  have k: "map fst canonical_input = [''A'', ''B'', ''C'', ''D'']" by (simp add: canonical_input_def)
  have t: "concat (map (\<lambda>(n, e). match_tokens e) canonical_input) = [''B'', ''C'', ''A'', ''B'']"
    by code_simp
  from repeated_expansion[of canonical_input "[PlainObj []]"] canonical_acyclic canonical_closed
  obtain r ts out h0 where
    ts: "new_TopologicalSorter (buildGraph canonical_input) = Some ts"
    and c: "construct canonical_input [PlainObj []] = Some (Inr (length [PlainObj []]), h0)"
    and h0: "h0 = [PlainObj []] @ [ResolverObj r, GraphObj (buildGraph canonical_input), SorterObj ts]"
    and out: "getExpandedEquations r = Inr out"
    and c1: "call_getExpandedEquations (length [PlainObj []]) h0 = (Inr (length h0), h0 @ [PlainObj out])"
    and c2: "call_getExpandedEquations (length [PlainObj []]) (h0 @ [PlainObj out]) =
        (Inr (Suc (length h0)), h0 @ [PlainObj out, PlainObj out])"
    and n: "\<not> served_from_cache (length [PlainObj []]) h0"
    by blast
  from ts have ts': "ts = canonical_sorter" by (simp add: canonical_sorter_eval)
  from c h0 construct_result[OF canonical_sorter_eval canonical_resolver_eval, of "[PlainObj []]"]
  have r: "r = canonical_resolver" by simp
  from out have o: "out = canonical_output" unfolding r by (simp add: canonical_output_eval)
  have h0': "h0 = [PlainObj [], ResolverObj canonical_resolver, GraphObj (buildGraph canonical_input),
            SorterObj canonical_sorter]"
    using h0 r ts' by simp
  have l: "length h0 = 4" unfolding h0' by simp
  from c have 1: "construct canonical_input [PlainObj []] = Some (Inr 1, h0)" by simp
  from c1 have 2: "call_getExpandedEquations 1 h0 = (Inr 4, h0 @ [PlainObj canonical_output])"
    unfolding o l by simp
  from c2 have 3: "call_getExpandedEquations 1 (h0 @ [PlainObj canonical_output]) =
        (Inr 5, h0 @ [PlainObj canonical_output, PlainObj canonical_output])"
    unfolding o l by simp
  from n have 4: "\<not> served_from_cache 1 h0" by simp
  from 1 h0' canonical_output_eval 2 3 4
  have "\<exists>h0. construct canonical_input [PlainObj []] = Some (Inr 1, h0) \<and>
      h0 = [PlainObj [], ResolverObj canonical_resolver, GraphObj (buildGraph canonical_input),
            SorterObj canonical_sorter] \<and>
      getExpandedEquations canonical_resolver = Inr canonical_output \<and>
      call_getExpandedEquations 1 h0 = (Inr 4, h0 @ [PlainObj canonical_output]) \<and>
      call_getExpandedEquations 1 (h0 @ [PlainObj canonical_output]) =
        (Inr 5, h0 @ [PlainObj canonical_output, PlainObj canonical_output]) \<and>
      \<not> served_from_cache 1 h0"
    by (intro exI conjI)
  with canonical_acyclic k t show ?thesis by (intro conjI)
qed

text \<open>
  Claim C8. Whenever expansion succeeds on an acyclic input, no expanded text contains
  the name of its own equation as a variable token; indeed it contains no variable token
  at all. When the graph has a cycle, \<open>getExpandedEquations\<close> throws instead.
\<close>

theorem expansion_has_no_own_name:
  "\<exists>r. new_EquationResolver input = Some (Inr r) \<and>
       (\<forall>out. acyclic (edges (buildGraph input)) \<and> getExpandedEquations r = Inr out \<longrightarrow>
              (\<forall>(n, txt) \<in> set out. n \<notin> set (match_tokens txt) \<and> match_tokens txt = [])) \<and>
       (\<not> acyclic (edges (buildGraph input)) \<longrightarrow>
          getExpandedEquations r =
            Inl (Error ''Input equations have a cycle. Cannot resolve dependencies in equations.''))"
proof -
  from resolver_result[of input] obtain ts r where
    r: "new_EquationResolver input = Some (Inr r)"
    and hc: "hasCycle ts \<longleftrightarrow> \<not> acyclic (edges (buildGraph input))"
    and rc: "EquationResolver_hasCycle r \<longleftrightarrow> hasCycle ts"
    by blast
  have "\<forall>(n, txt) \<in> set out. n \<notin> set (match_tokens txt) \<and> match_tokens txt = []"
    if "getExpandedEquations r = Inr out" for out
  proof -
    from that have "expand_all (inputEquations r) (order_list (topologicalOrder r)) [] = Inr out"
      by (auto simp: getExpandedEquations_def split: if_splits)
    from expand_all_token_free[OF _ this] have "\<forall>(n, txt) \<in> set out. match_tokens txt = []"
      by simp
    then show ?thesis by auto
  qed
  moreover have "getExpandedEquations r =
      Inl (Error ''Input equations have a cycle. Cannot resolve dependencies in equations.'')"
    if "\<not> acyclic (edges (buildGraph input))"
    using that hc rc by (simp add: getExpandedEquations_def)
  ultimately show ?thesis using r by blast
qed

text \<open>
  Claim C8 at the canonical equations.
\<close>

theorem expansion_has_no_own_name_witness:
  "acyclic (edges (buildGraph canonical_input)) \<and>
   (\<exists>r. new_EquationResolver canonical_input = Some (Inr r) \<and>
        getExpandedEquations r =
          Inr [(''C'', ''1''), (''B'', ''1+5''), (''A'', ''1+5+2''), (''D'', ''1+5+2+1+5'')] \<and>
        ''D'' \<notin> set (match_tokens ''1+5+2+1+5'') \<and> match_tokens ''1+5+2+1+5'' = [])"
proof -
  have "map_option hasCycle (new_TopologicalSorter (buildGraph canonical_input)) = Some False"
    by code_simp
  then have a: "acyclic (edges (buildGraph canonical_input))"
    by (simp only: acyclic_buildGraph_eval)
  have r: "new_EquationResolver canonical_input =
          Some (Inr \<lparr>inputEquations = canonical_input, graphCycle = None,
                     topologicalOrder = Some [''C'', ''B'', ''A'', ''D'']\<rparr>)"
    by code_simp
  have e: "getExpandedEquations \<lparr>inputEquations = canonical_input, graphCycle = None,
                     topologicalOrder = Some [''C'', ''B'', ''A'', ''D'']\<rparr> =
         Inr [(''C'', ''1''), (''B'', ''1+5''), (''A'', ''1+5+2''), (''D'', ''1+5+2+1+5'')]"
    by code_simp
  from expansion_has_no_own_name[of canonical_input] r obtain
    h: "\<forall>out. acyclic (edges (buildGraph canonical_input)) \<and>
          getExpandedEquations \<lparr>inputEquations = canonical_input, graphCycle = None,
                     topologicalOrder = Some [''C'', ''B'', ''A'', ''D'']\<rparr> = Inr out \<longrightarrow>
              (\<forall>(n, txt) \<in> set out. n \<notin> set (match_tokens txt) \<and> match_tokens txt = [])"
    by auto
  from h a e have "\<forall>(n, txt) \<in> set [(''C'', ''1''), (''B'', ''1+5''), (''A'', ''1+5+2''),
        (''D'', ''1+5+2+1+5'')]. n \<notin> set (match_tokens txt) \<and> match_tokens txt = []"
    by blast
  then have "''D'' \<notin> set (match_tokens ''1+5+2+1+5'') \<and> match_tokens ''1+5+2+1+5'' = []"
    by simp
  with a r e show ?thesis by simp
qed

text \<open>
  Claim C9. After every sequence of \<open>addVertex\<close> and \<open>addEdge\<close> calls on a fresh graph
  the vertex list and every adjacency list are free of duplicates; adding a vertex that
  is present, or an edge that is present, leaves the graph as it is; the graph built from
  any equations has duplicate-free adjacency lists, and for \<open>{N: "A+A+B"}\<close> the edges
  are exactly \<open>N \<rightarrow> A\<close> and \<open>N \<rightarrow> B\<close>, once each.
\<close>

theorem graph_set_semantics:
  "distinct (getVertices (run_ops ops)) \<and>
   (\<forall>v. distinct (getAdjacencyList (run_ops ops) v)) \<and>
   (\<forall>v \<in> set (getVertices (run_ops ops)). addVertex v (run_ops ops) = run_ops ops) \<and>
   (\<forall>v w. w \<in> set (getAdjacencyList (run_ops ops) v) \<longrightarrow>
           addEdge v w (run_ops ops) = run_ops ops) \<and>
   (\<forall>v. distinct (getAdjacencyList (buildGraph input) v)) \<and>
   getAdjacencyList (buildGraph [(''N'', ''A+A+B'')]) ''N'' = [''A'', ''B''] \<and>
   edges (buildGraph [(''N'', ''A+A+B'')]) = {(''N'', ''A''), (''N'', ''B'')}"
proof -
  have ok: "graph_ok (run_ops ops)" by (rule graph_ok_run_ops)
  have 1: "distinct (getVertices (run_ops ops))"
    and 2: "\<forall>v. distinct (getAdjacencyList (run_ops ops) v)"
    using ok by (simp_all add: graph_ok_def)
  have 3: "\<forall>v \<in> set (getVertices (run_ops ops)). addVertex v (run_ops ops) = run_ops ops"
    using ok by (auto simp: graph_ok_def intro: addVertex_present)
  have 4: "\<forall>v w. w \<in> set (getAdjacencyList (run_ops ops) v) \<longrightarrow>
           addEdge v w (run_ops ops) = run_ops ops"
    by (auto intro: addEdge_present)
  have 5: "\<forall>v. distinct (getAdjacencyList (buildGraph input) v)"
    using graph_ok_buildGraph[of input] by (simp add: graph_ok_def)
  have g: "buildGraph [(''N'', ''A+A+B'')] =
      \<lparr>vertices = [(''N'', True), (''A'', True), (''B'', True)], adj = [(''N'', [''A'', ''B''])]\<rparr>"
    by code_simp
  have 6: "getAdjacencyList (buildGraph [(''N'', ''A+A+B'')]) ''N'' = [''A'', ''B'']"
    unfolding g by (simp add: getAdjacencyList_def)
  have 7: "edges (buildGraph [(''N'', ''A+A+B'')]) = {(''N'', ''A''), (''N'', ''B'')}"
    unfolding g by (auto simp: edges_def getAdjacencyList_def split: if_splits)
  from 1 2 3 4 5 6 7 show ?thesis by (intro conjI)
qed

text \<open>
  Claim C9 at a sequence of calls that adds the vertex \<open>A\<close> and the edge \<open>A \<rightarrow> B\<close> twice.
\<close>

theorem graph_set_semantics_witness:
  "''A'' \<in> set (getVertices (run_ops sample_ops)) \<and>
   addVertex ''A'' (run_ops sample_ops) = run_ops sample_ops \<and>
   ''B'' \<in> set (getAdjacencyList (run_ops sample_ops) ''A'') \<and>
   addEdge ''A'' ''B'' (run_ops sample_ops) = run_ops sample_ops \<and>
   getVertices (run_ops sample_ops) = [''A'', ''B''] \<and>
   getAdjacencyList (run_ops sample_ops) ''A'' = [''B'']"
proof -
  have v: "getVertices (run_ops sample_ops) = [''A'', ''B'']" by code_simp
  have a: "getAdjacencyList (run_ops sample_ops) ''A'' = [''B'']" by code_simp
  have va: "''A'' \<in> set (getVertices (run_ops sample_ops))"
    and ab: "''B'' \<in> set (getAdjacencyList (run_ops sample_ops) ''A'')"
    by (simp_all add: v a)
  note s = graph_set_semantics[of sample_ops "[]"]
  from s have 3: "\<forall>v \<in> set (getVertices (run_ops sample_ops)).
                    addVertex v (run_ops sample_ops) = run_ops sample_ops"
    by (elim conjE)
  from s have 4: "\<forall>v w. w \<in> set (getAdjacencyList (run_ops sample_ops) v) \<longrightarrow>
           addEdge v w (run_ops sample_ops) = run_ops sample_ops"
    by (elim conjE)
  from 3 va have "addVertex ''A'' (run_ops sample_ops) = run_ops sample_ops" by (rule bspec)
  moreover from 4 ab have "addEdge ''A'' ''B'' (run_ops sample_ops) = run_ops sample_ops"
    by (elim allE impE)
  ultimately show ?thesis using va ab v a by (intro conjI)
qed

text \<open>
  Claim C10. For every input both resolvers are constructed, and they agree on
  \<open>hasCycle\<close>, on \<open>getCycle\<close> and on what \<open>getExpandedEquations\<close> and
  \<open>getExpandedExpressions\<close> do: without a cycle the two results are equal (the same
  mapping or the same TypeError), with a cycle both throw an Error, whose message names
  equations in the one and expressions in the other.
\<close>

theorem resolvers_agree:
  "\<exists>a b. new_EquationResolver input = Some (Inr a) \<and>
         new_ExpressionResolver input = Some (Inr b) \<and>
         EquationResolver_hasCycle a = ExpressionResolver_hasCycle b \<and>
         EquationResolver_getCycle a = ExpressionResolver_getCycle b \<and>
         map_sum error_kind id (getExpandedEquations a)
           = map_sum error_kind id (getExpandedExpressions b) \<and>
         (EquationResolver_hasCycle a = False \<and>
            getExpandedEquations a = getExpandedExpressions b
          \<or> EquationResolver_hasCycle a = True \<and>
            getExpandedEquations a =
              Inl (Error ''Input equations have a cycle. Cannot resolve dependencies in equations.'') \<and>
            getExpandedExpressions b =
              Inl (Error ''Input expressions have a cycle. Cannot resolve dependencies in expressions.''))"
proof -
  from resolver_result[of input] obtain ts a where
    ts: "new_TopologicalSorter (buildGraph input) = Some ts"
    and a: "new_EquationResolver input = Some (Inr a)"
    by blast
  define b where "b = (if hasCycle ts
        then \<lparr>inputExpressions = input, graphHasCycle = hasCycle ts,
               graphCycle' = cycle ts, topologicalOrder' = None\<rparr>
        else \<lparr>inputExpressions = input, graphHasCycle = hasCycle ts,
               graphCycle' = None, topologicalOrder' = Some (ordering ts)\<rparr>)"
  have b: "new_ExpressionResolver input = Some (Inr b)"
    using ts by (simp add: new_ExpressionResolver_def ExpressionResolver_buildGraph_eq
                           getOrdering_def getCycle_def b_def)
  have a': "a = (if hasCycle ts
        then \<lparr>inputEquations = input, graphCycle = cycle ts, topologicalOrder = None\<rparr>
        else \<lparr>inputEquations = input, graphCycle = None, topologicalOrder = Some (ordering ts)\<rparr>)"
    using new_EquationResolver_result[OF ts] a by simp
  show ?thesis
  proof (cases "hasCycle ts")
    case True
    then show ?thesis
      using a b unfolding a' b_def
      by (auto simp: EquationResolver_hasCycle_def ExpressionResolver_hasCycle_def
            EquationResolver_getCycle_def ExpressionResolver_getCycle_def
            getExpandedEquations_def getExpandedExpressions_def hasCycle_def)
  next
    case False
    then show ?thesis
      using a b unfolding a' b_def
      by (auto simp: EquationResolver_hasCycle_def ExpressionResolver_hasCycle_def
            EquationResolver_getCycle_def ExpressionResolver_getCycle_def
            getExpandedEquations_def getExpandedExpressions_def hasCycle_def
            expand_expressions_eq)
  qed
qed

text \<open>
  Claim C10 at \<open>{A: "B+1", B: "C+1", C: "A+1"}\<close>.
\<close>

theorem resolvers_agree_witness:
  "\<exists>a b. new_EquationResolver three_cycle_input = Some (Inr a) \<and>
         new_ExpressionResolver three_cycle_input = Some (Inr b) \<and>
         EquationResolver_hasCycle a = True \<and> ExpressionResolver_hasCycle b = True \<and>
         EquationResolver_getCycle a = Some [''A'', ''B'', ''C'', ''A''] \<and>
         ExpressionResolver_getCycle b = Some [''A'', ''B'', ''C'', ''A'']"
proof -
  from resolvers_agree[of three_cycle_input] obtain a b where
    a: "new_EquationResolver three_cycle_input = Some (Inr a)"
    and b: "new_ExpressionResolver three_cycle_input = Some (Inr b)"
    and h: "EquationResolver_hasCycle a = ExpressionResolver_hasCycle b"
    and c: "EquationResolver_getCycle a = ExpressionResolver_getCycle b"
    by blast
  have "new_EquationResolver three_cycle_input =
          Some (Inr \<lparr>inputEquations = three_cycle_input,
                     graphCycle = Some [''A'', ''B'', ''C'', ''A''], topologicalOrder = None\<rparr>)"
    by code_simp
  with a have "EquationResolver_hasCycle a = True"
    "EquationResolver_getCycle a = Some [''A'', ''B'', ''C'', ''A'']"
    by (auto simp: EquationResolver_hasCycle_def EquationResolver_getCycle_def)
  with a b h c show ?thesis by auto
qed

end
